theory Spec2Isabelle
  imports Main "HOL-Library.Word" "HOL-Library.Sublist" "HOL-Library.AList"
begin

unbundle bit_operations_syntax

section \<open>Go runtime values\<close>

text \<open>
  The drive item cache of onedriver (package \<open>graph\<close>, the second half of
  \<open>src/logger/logger.go\<close>) is embedded here. A Go run-time panic is a value of
  type \<open>panic\<close>; a function that can panic returns \<open>panic + 'a\<close>, with
  \<open>Inl\<close> for the panic. A Go \<open>error\<close> is its message (a \<open>string\<close>), and a
  result pair \<open>(v, err)\<close> is \<open>'a \<times> string option\<close> with \<open>None\<close> for \<open>nil\<close>.
\<close>

datatype panic = NilDereference | SliceBounds | LenOutOfRange | NilMap

datatype Status = OK

type_synonym byte = "8 word"
type_synonym addr = nat
type_synonym gerror = string

text \<open>Go's \<open>int\<close> and \<open>int64\<close> are 64 bits wide, two's complement; \<open>wrap64\<close>
  is the value a mathematical integer has after wrapping around.\<close>

definition maxInt :: int where
  "maxInt = 2 ^ 63 - 1"

definition wrap64 :: "int \<Rightarrow> int" where
  "wrap64 x = (x + 2 ^ 63) mod 2 ^ 64 - 2 ^ 63"

subsection \<open>Byte slices\<close>

text \<open>
  A \<open>[]byte\<close> is a window on a backing array: \<open>backing\<close> holds the array from the
  slice's first element up to its capacity, \<open>slen\<close> is the length. Re-slicing
  \<open>s[:n]\<close> may reach beyond the length, up to the capacity, and then shows what the
  array holds there.
\<close>

record gslice =
  backing :: "byte list"
  slen :: nat

definition cap :: "gslice \<Rightarrow> nat" where
  "cap s = length (backing s)"

definition contents :: "gslice \<Rightarrow> byte list" where
  "contents s = take (slen s) (backing s)"

definition valid_slice :: "gslice \<Rightarrow> bool" where
  "valid_slice s = (slen s \<le> cap s \<and> int (cap s) \<le> maxInt)"

text \<open>\<open>s[:hi]\<close>\<close>

definition slice_to :: "gslice \<Rightarrow> int \<Rightarrow> panic + gslice" where
  "slice_to s hi =
     (if 0 \<le> hi \<and> hi \<le> int (cap s) then Inr (s\<lparr>slen := nat hi\<rparr>) else Inl SliceBounds)"

text \<open>\<open>s[lo:]\<close>: the upper bound is the length.\<close>

definition slice_from :: "gslice \<Rightarrow> int \<Rightarrow> panic + gslice" where
  "slice_from s lo =
     (if 0 \<le> lo \<and> lo \<le> int (slen s)
      then Inr \<lparr>backing = drop (nat lo) (backing s), slen = slen s - nat lo\<rparr>
      else Inl SliceBounds)"

text \<open>\<open>s[lo:hi]\<close>\<close>

definition slice_range :: "gslice \<Rightarrow> int \<Rightarrow> int \<Rightarrow> panic + gslice" where
  "slice_range s lo hi =
     (if 0 \<le> lo \<and> lo \<le> hi \<and> hi \<le> int (cap s)
      then Inr \<lparr>backing = drop (nat lo) (backing s), slen = nat hi - nat lo\<rparr>
      else Inl SliceBounds)"

text \<open>
  \<open>append(s, xs...)\<close>: in place when the capacity suffices, otherwise into a new
  array, zeroed past the new length. How much room the runtime adds is its own
  business: \<open>slack\<close> gives the number of spare elements for the old capacity and
  the length needed. A length past the largest \<open>int\<close> panics.
\<close>

definition go_append :: "(nat \<Rightarrow> nat \<Rightarrow> nat) \<Rightarrow> gslice \<Rightarrow> byte list \<Rightarrow> panic + gslice" where
  "go_append slack s xs =
     (let n = slen s + length xs in
      if maxInt < int n then Inl LenOutOfRange
      else if n \<le> cap s
      then Inr \<lparr>backing = take (slen s) (backing s) @ xs @ drop n (backing s), slen = n\<rparr>
      else Inr \<lparr>backing = take (slen s) (backing s) @ xs @ replicate (slack (cap s) n) 0,
                slen = n\<rparr>)"

text \<open>
  \<open>copy(s[lo:], xs)\<close>, given the destination \<open>dst = s[lo:]\<close>: the destination shares
  the array of \<open>s\<close> from index \<open>lo\<close>, so the bytes land in \<open>s\<close>. \<open>copy\<close> moves as
  many bytes as the shorter of the two slices holds.
\<close>

definition go_copy_at :: "gslice \<Rightarrow> nat \<Rightarrow> gslice \<Rightarrow> byte list \<Rightarrow> gslice" where
  "go_copy_at s lo dst xs =
     (let n = min (slen dst) (length xs) in
      s\<lparr>backing := take lo (backing s) @ take n xs @ drop (lo + n) (backing s)\<rparr>)"

subsection \<open>Strings\<close>

text \<open>\<open>strings.Contains\<close>, \<open>strings.TrimPrefix\<close> and \<open>strings.Replace\<close> with
  count \<open>-1\<close> (every non-overlapping match, left to right; the pattern is not empty
  where the program calls it).\<close>

fun Contains :: "string \<Rightarrow> string \<Rightarrow> bool" where
  "Contains [] sub = (sub = [])"
| "Contains (c # cs) sub = (prefix sub (c # cs) \<or> Contains cs sub)"

definition TrimPrefix :: "string \<Rightarrow> string \<Rightarrow> string" where
  "TrimPrefix s pre = (if prefix pre s then drop (length pre) s else s)"

function Replace :: "string \<Rightarrow> string \<Rightarrow> string \<Rightarrow> string" where
  "Replace [] old new = []"
| "Replace (c # cs) old new =
     (if old \<noteq> [] \<and> prefix old (c # cs)
      then new @ Replace (drop (length old) (c # cs)) old new
      else c # Replace cs old new)"
  by pat_completeness auto
termination
  by (relation "measure (\<lambda>(s, old, new). length s)") (auto simp: neq_Nil_conv)

section \<open>The data model\<close>

text \<open>\<open>Auth\<close> is declared elsewhere in the package; the item code reads its
  access token only. \<open>Auth{}\<close> is the record with the empty token.\<close>

record Auth =
  AccessToken :: string

definition emptyAuth :: Auth where
  "emptyAuth = \<lparr>AccessToken = ''''\<rparr>"

record File =
  MimeType :: string

text \<open>Items live in a store, a list indexed by address; a pointer to an item is an
  \<open>addr option\<close>, \<open>None\<close> for \<open>nil\<close>. An item holds its parent reference, its
  content slice and its file facet by value, \<open>None\<close> where the pointer is nil.\<close>

record DriveItemParent =
  parent_ID :: string
  parent_Path :: string
  parent_item :: "addr option"

text \<open>
  The fields the item's methods read or write. \<open>mutex\<close> tells whether the lock has
  been allocated (locking a nil \<open>*sync.RWMutex\<close> panics); one thread runs at a time,
  so a lock that exists can always be taken. \<open>children\<close> is the child map in
  insertion order, \<open>None\<close> while it is nil.
\<close>

record DriveItem =
  auth :: "Auth option"
  data :: "gslice option"
  hasChanges :: bool
  IDInternal :: string
  NameInternal :: string
  SizeInternal :: "64 word"
  mode :: "32 word"
  Parent :: "DriveItemParent option"
  children :: "(string \<times> addr) list option"
  subdir :: "32 word"
  mutex :: bool
  FileInternal :: "File option"

text \<open>The file type bits of \<open>fuse\<close> (those of \<open>syscall\<close> on Linux).\<close>

definition S_IFDIR :: "32 word" where
  "S_IFDIR = 0x4000"

definition S_IFREG :: "32 word" where
  "S_IFREG = 0x8000"

section \<open>Attributes\<close>

definition Name :: "DriveItem \<Rightarrow> string" where
  "Name d = NameInternal d"

text \<open>
  \<open>Mode\<close> has a value receiver: \<open>d\<close> is the method's own copy of the item, and the
  assignment to \<open>d.mode\<close> changes that copy. \<open>Mode_body\<close> returns the result
  together with the copy as the method leaves it; the caller's item is not touched.
  The permission bits are octal in the source: \<open>0755\<close> is \<open>0x1ED\<close> and \<open>0644\<close>
  is \<open>0x1A4\<close>.
\<close>

definition Mode_body :: "DriveItem \<Rightarrow> 32 word \<times> DriveItem" where
  "Mode_body d =
     (let d = (if mode d = 0
               then (if FileInternal d = None
                     then d\<lparr>mode := S_IFDIR OR 0x1ED\<rparr>
                     else d\<lparr>mode := S_IFREG OR 0x1A4\<rparr>)
               else d)
      in (mode d, d))"

definition Mode :: "DriveItem \<Rightarrow> 32 word" where
  "Mode d = fst (Mode_body d)"

definition IsDir :: "DriveItem \<Rightarrow> bool" where
  "IsDir d = (0 < (Mode d AND S_IFDIR))"

definition Path :: "DriveItem \<Rightarrow> panic + string" where
  "Path d =
     (case Parent d of
        None \<Rightarrow> Inl NilDereference
      | Some p \<Rightarrow>
          if parent_Path p = '''' \<and> Name d = ''root'' then Inr ''/''
          else let prepath = TrimPrefix (parent_Path p @ ''/'' @ Name d) ''/drive/root:''
               in Inr (Replace prepath ''//'' ''/''))"

definition NLink :: "DriveItem \<Rightarrow> panic + 32 word" where
  "NLink d =
     (if IsDir d
      then (if mutex d then Inr (2 + subdir d) else Inl NilDereference)
      else Inr 1)"

definition Size :: "DriveItem \<Rightarrow> panic + 64 word" where
  "Size d =
     (if IsDir d then Inr 4096
      else if mutex d then Inr (SizeInternal d) else Inl NilDereference)"

text \<open>\<open>Chmod\<close> has a pointer receiver: it returns the item as it leaves it.\<close>

definition Chmod :: "DriveItem \<Rightarrow> 32 word \<Rightarrow> panic + Status \<times> DriveItem" where
  "Chmod d perms =
     (case Path d of
        Inl p \<Rightarrow> Inl p
      | Inr path \<Rightarrow>
          if \<not> mutex d then Inl NilDereference
          else Inr (OK, if IsDir d then d\<lparr>mode := S_IFDIR OR perms\<rparr>
                        else d\<lparr>mode := S_IFREG OR perms\<rparr>))"

section \<open>Content buffering\<close>

text \<open>
  \<open>Read\<close> uses the caller's buffer for its length only. The arguments of the trace
  call are evaluated, so \<open>d.Path()\<close> runs (and can panic) before the slice is cut.
\<close>

definition Read :: "DriveItem \<Rightarrow> byte list \<Rightarrow> 64 word \<Rightarrow> panic + byte list \<times> Status" where
  "Read d buf off =
     (let end = wrap64 (sint off + int (length buf)) in
      if \<not> mutex d then Inl NilDereference
      else (case data d of
        None \<Rightarrow> Inl NilDereference
      | Some b \<Rightarrow>
          let end = (if int (slen b) < end then int (slen b) else end) in
          (case Path d of
             Inl p \<Rightarrow> Inl p
           | Inr path \<Rightarrow>
               (case slice_range b (sint off) end of
                  Inl p \<Rightarrow> Inl p
                | Inr r \<Rightarrow> Inr (contents r, OK)))))"

definition Write ::
  "(nat \<Rightarrow> nat \<Rightarrow> nat) \<Rightarrow> DriveItem \<Rightarrow> byte list \<Rightarrow> 64 word \<Rightarrow> panic + (32 word \<times> Status) \<times> DriveItem"
where
  "Write slack d dat off =
     (let nWrite = length dat; offset = sint off in
      case Path d of
        Inl p \<Rightarrow> Inl p
      | Inr path \<Rightarrow>
          if \<not> mutex d then Inl NilDereference
          else (case data d of
            None \<Rightarrow> Inl NilDereference
          | Some b \<Rightarrow>
              (case (if wrap64 (sint (SizeInternal d) - 1) < wrap64 (offset + int nWrite)
                     then (case slice_to b offset of
                             Inl p \<Rightarrow> Inl p
                           | Inr pre \<Rightarrow> go_append slack pre dat)
                     else (case slice_from b offset of
                             Inl p \<Rightarrow> Inl p
                           | Inr dst \<Rightarrow> Inr (go_copy_at b (nat offset) dst dat)))
               of
                 Inl p \<Rightarrow> Inl p
               | Inr b' \<Rightarrow>
                   Inr ((word_of_nat nWrite, OK),
                        d\<lparr>data := Some b', SizeInternal := word_of_nat (slen b'),
                          hasChanges := True\<rparr>))))"

definition Truncate :: "DriveItem \<Rightarrow> 64 word \<Rightarrow> panic + Status \<times> DriveItem" where
  "Truncate d sz =
     (case Path d of
        Inl p \<Rightarrow> Inl p
      | Inr path \<Rightarrow>
          if \<not> mutex d then Inl NilDereference
          else (case data d of
            None \<Rightarrow> Inl NilDereference
          | Some b \<Rightarrow>
              (case slice_to b (uint sz) of
                 Inl p \<Rightarrow> Inl p
               | Inr b' \<Rightarrow>
                   Inr (OK, d\<lparr>data := Some b', SizeInternal := sz, hasChanges := True\<rparr>))))"

section \<open>The store, the remote transport and other callers\<close>

text \<open>
  \<open>Put\<close>, \<open>Get\<close>, \<open>GetItem\<close>, \<open>ChildrenPath\<close> and \<open>Upload\<close> are functions of the
  package that this file does not hold, and \<open>json.Unmarshal\<close>, \<open>strings.ToLower\<close>
  belong to the Go library: the model takes them as parameters, the fields of
  \<open>env\<close>. A transport function sees the requests made so far, so that the same
  request can fail once and succeed later. \<open>meanwhile\<close> is what other callers do
  to the items while this one waits for the transport; it is applied to the store
  when a request returns. \<open>unmarshalChildren\<close> gives the decoded listing in order,
  \<open>None\<close> for a JSON \<open>null\<close> entry (a nil pointer in the slice). \<open>spare\<close> is
  the capacity a body slice of the transport has beyond its length.
\<close>

datatype request =
    PUT string Auth "byte list"
  | GET string Auth
  | GETITEM string Auth

record env =
  Put :: "request list \<Rightarrow> string \<Rightarrow> Auth \<Rightarrow> byte list \<Rightarrow> gerror + byte list"
  Get :: "request list \<Rightarrow> string \<Rightarrow> Auth \<Rightarrow> gerror + byte list"
  GetItem :: "request list \<Rightarrow> string \<Rightarrow> Auth \<Rightarrow> gerror + DriveItem"
  ChildrenPath :: "string \<Rightarrow> string"
  meanwhile :: "request list \<Rightarrow> DriveItem list \<Rightarrow> DriveItem list"
  unmarshalItem :: "byte list \<Rightarrow> DriveItem \<Rightarrow> gerror + DriveItem"
  unmarshalChildren :: "byte list \<Rightarrow> DriveItem option list"
  ToLower :: "string \<Rightarrow> string"
  spare :: "byte list \<Rightarrow> nat"

text \<open>\<open>uploads\<close> lists the upload goroutines started so far: the item each was
  given, its authentication context, and the item as the store held it at the
  \<open>go\<close> statement.\<close>

record world =
  items :: "DriveItem list"
  trace :: "request list"
  uploads :: "(addr \<times> Auth \<times> DriveItem) list"

definition deref :: "DriveItem list \<Rightarrow> addr \<Rightarrow> DriveItem option" where
  "deref h a = (if a < length h then Some (h ! a) else None)"

text \<open>A request: it is added to the trace, and the store comes back as the other
  callers left it.\<close>

definition sent :: "env \<Rightarrow> world \<Rightarrow> request \<Rightarrow> world" where
  "sent e w r = w\<lparr>trace := trace w @ [r], items := meanwhile e (trace w @ [r]) (items w)\<rparr>"

text \<open>\<open>d.Mode()\<close> through a pointer \<open>d\<close>: the receiver is copied out of the store,
  the method works on the copy, and the store keeps the item as it was.\<close>

definition call_Mode :: "DriveItem list \<Rightarrow> addr \<Rightarrow> (panic + 32 word) \<times> DriveItem list" where
  "call_Mode h a =
     (case deref h a of
        None \<Rightarrow> (Inl NilDereference, h)
      | Some d \<Rightarrow> (Inr (fst (Mode_body d)), h))"

section \<open>Identity resolution\<close>

text \<open>
  \<open>ID\<close> and \<open>NewDriveItem\<close> call each other: \<open>ID\<close> builds a throwaway item for
  the decoder, and \<open>NewDriveItem\<close> asks the parent for its identifier with an
  empty \<open>Auth\<close>, which never uploads. \<open>NewDriveItem\<close> returns the new item; the
  clock it reads for the modification time is not modelled.
\<close>

function ID :: "env \<Rightarrow> world \<Rightarrow> addr \<Rightarrow> Auth \<Rightarrow> (panic + string \<times> gerror option) \<times> world"
  and NewDriveItem ::
    "env \<Rightarrow> world \<Rightarrow> string \<Rightarrow> 32 word \<Rightarrow> addr option \<Rightarrow> (panic + DriveItem) \<times> world"
where
  "ID e w a au =
     (case deref (items w) a of
        None \<Rightarrow> (Inl NilDereference, w)
      | Some d \<Rightarrow>
          if \<not> mutex d then (Inl NilDereference, w)
          else
            (let cpy = d in
             case Parent d of
               None \<Rightarrow> (Inl NilDereference, w)
             | Some dp \<Rightarrow>
                 (let parentID = parent_ID dp in
                  if IsDir cpy then (Inr (IDInternal cpy, None), w)
                  else if IDInternal cpy = '''' \<and> AccessToken au \<noteq> ''''
                  then
                    (let uploadPath =
                           ''/me/drive/items/'' @ parentID @ '':/'' @ Name cpy @ '':/content'';
                         resp = Put e (trace w) uploadPath au [];
                         w1 = sent e w (PUT uploadPath au [])
                     in case resp of
                          Inl err \<Rightarrow>
                            if Contains err ''nameAlreadyExists''
                            then
                              (case deref (items w1) a of
                                 None \<Rightarrow> (Inl NilDereference, w1)
                               | Some live \<Rightarrow>
                                   if \<not> mutex live then (Inl NilDereference, w1)
                                   else
                                     (let ident = IDInternal live in
                                      case Path live of
                                        Inl p \<Rightarrow> (Inl p, w1)
                                      | Inr path \<Rightarrow>
                                          if ident \<noteq> '''' then (Inr (ident, None), w1)
                                          else
                                            (let latest = GetItem e (trace w1) path au;
                                                 w2 = sent e w1 (GETITEM path au)
                                             in case latest of
                                                  Inr l \<Rightarrow> (Inr (IDInternal l, None), w2)
                                                | Inl err2 \<Rightarrow> (Inr ('''', Some err), w2))))
                            else (Inr ('''', Some err), w1)
                        | Inr body \<Rightarrow>
                            (case NewDriveItem e w1 (Name cpy) 0x1A4 (parent_item dp) of
                               (Inl p, w2) \<Rightarrow> (Inl p, w2)
                             | (Inr unsafe, w2) \<Rightarrow>
                                 (case unmarshalItem e body unsafe of
                                    Inl err \<Rightarrow> (Inr ('''', Some err), w2)
                                  | Inr unsafe' \<Rightarrow>
                                      (case deref (items w2) a of
                                         None \<Rightarrow> (Inl NilDereference, w2)
                                       | Some live \<Rightarrow>
                                           if \<not> mutex live then (Inl NilDereference, w2)
                                           else
                                             (Inr (IDInternal unsafe', None),
                                              w2\<lparr>items := (items w2)
                                                   [a := live\<lparr>IDInternal := IDInternal unsafe'\<rparr>]\<rparr>)))))
                  else (Inr (IDInternal cpy, None), w))))"
| "NewDriveItem e w name m parent =
     (case parent of
        None \<Rightarrow> (Inl NilDereference, w)
      | Some pa \<Rightarrow>
          (case ID e w pa emptyAuth of
             (Inl p, w1) \<Rightarrow> (Inl p, w1)
           | (Inr (parentID, err), w1) \<Rightarrow>
               (case deref (items w1) pa of
                  None \<Rightarrow> (Inl NilDereference, w1)
                | Some par \<Rightarrow>
                    if \<not> mutex par then (Inl NilDereference, w1)
                    else
                      (case Parent par of
                         None \<Rightarrow> (Inl NilDereference, w1)
                       | Some pp \<Rightarrow>
                           (Inr \<lparr>auth = None, data = Some \<lparr>backing = [], slen = 0\<rparr>,
                                 hasChanges = False, IDInternal = '''', NameInternal = name,
                                 SizeInternal = 0, mode = m,
                                 Parent = Some \<lparr>parent_ID = parentID,
                                                 parent_Path = parent_Path pp @ ''/'' @ Name par,
                                                 parent_item = Some pa\<rparr>,
                                 children = Some [], subdir = 0, mutex = True,
                                 FileInternal = None\<rparr>,
                            w1)))))"
  by pat_completeness auto
termination
  by (relation "measure (\<lambda>x. case x of
          Inl (e, w, a, au) \<Rightarrow> (if AccessToken au = '''' then 0 else 2)
        | Inr (e, w, name, m, parent) \<Rightarrow> 1)")
     (auto simp: emptyAuth_def)

declare ID.simps [simp del] NewDriveItem.simps [simp del]

section \<open>Content fetch\<close>

text \<open>
  \<open>FetchContent\<close> resolves the identifier, downloads the content and makes it the
  item's buffer. The slice the transport returns holds the body, with
  \<open>spare\<close> unused elements of capacity behind it. The declared size is not
  touched.
\<close>

definition FetchContent :: "env \<Rightarrow> world \<Rightarrow> addr \<Rightarrow> Auth \<Rightarrow> (panic + gerror option) \<times> world" where
  "FetchContent e w a au =
     (case ID e w a au of
        (Inl p, w1) \<Rightarrow> (Inl p, w1)
      | (Inr (ident, Some err), w1) \<Rightarrow> (Inr (Some err), w1)
      | (Inr (ident, None), w1) \<Rightarrow>
          (let path = ''/me/drive/items/'' @ ident @ ''/content'';
               body = Get e (trace w1) path au;
               w2 = sent e w1 (GET path au)
           in case body of
                Inl err \<Rightarrow> (Inr (Some err), w2)
              | Inr bytes \<Rightarrow>
                  (case deref (items w2) a of
                     None \<Rightarrow> (Inl NilDereference, w2)
                   | Some live \<Rightarrow>
                       if \<not> mutex live then (Inl NilDereference, w2)
                       else
                         (Inr None,
                          w2\<lparr>items := (items w2)
                               [a := live\<lparr>data := Some \<lparr>backing = bytes @ replicate (spare e bytes) 0,
                                                         slen = length bytes\<rparr>\<rparr>]\<rparr>))))"

section \<open>Directory listing\<close>

text \<open>\<open>json.Unmarshal\<close> allocates one item for every entry of the listing that is
  not \<open>null\<close>; \<open>alloc_children\<close> puts them at the end of the store and returns
  the pointers.\<close>

fun alloc_children ::
  "DriveItem option list \<Rightarrow> DriveItem list \<Rightarrow> addr option list \<times> DriveItem list"
where
  "alloc_children [] h = ([], h)"
| "alloc_children (None # cs) h =
     (let (ps, h') = alloc_children cs h in (None # ps, h'))"
| "alloc_children (Some c # cs) h =
     (let (ps, h') = alloc_children cs (h @ [c]) in (Some (length h) # ps, h'))"

text \<open>
  One round of the loop of \<open>GetChildren\<close>, for the directory at \<open>a\<close> and the
  fetched child pointer \<open>c\<close>: the child gets its parent link and its lock, a
  directory child counts as a subdirectory, and the child enters the map under
  its lower-cased name. A panic leaves the store as it is at that point.
\<close>

definition child_round ::
  "env \<Rightarrow> addr \<Rightarrow> addr option \<Rightarrow> DriveItem list \<Rightarrow> panic option \<times> DriveItem list"
where
  "child_round e a c h =
     (case c of
        None \<Rightarrow> (Some NilDereference, h)
      | Some ca \<Rightarrow>
          (case deref h ca of
             None \<Rightarrow> (Some NilDereference, h)
           | Some child \<Rightarrow>
               (case Parent child of
                  None \<Rightarrow> (Some NilDereference, h)
                | Some cp \<Rightarrow>
                    (let h1 = h[ca := child\<lparr>Parent := Some (cp\<lparr>parent_item := Some a\<rparr>)\<rparr>];
                         h2 = h1[ca := (h1 ! ca)\<lparr>mutex := True\<rparr>]
                     in case deref h2 a of
                          None \<Rightarrow> (Some NilDereference, h2)
                        | Some d \<Rightarrow>
                            (let h3 = (if IsDir (h2 ! ca)
                                       then h2[a := d\<lparr>subdir := subdir d + 1\<rparr>]
                                       else h2)
                             in case children (h3 ! a) of
                                  None \<Rightarrow> (Some NilMap, h3)
                                | Some m \<Rightarrow>
                                    (None,
                                     h3[a := (h3 ! a)\<lparr>children :=
                                          Some (AList.update (ToLower e (Name (h3 ! ca))) ca m)\<rparr>]))))))"

text \<open>The loop: the rounds in the order of the listing, up to the first panic.\<close>

fun populate ::
  "env \<Rightarrow> addr \<Rightarrow> addr option list \<Rightarrow> DriveItem list \<Rightarrow> panic option \<times> DriveItem list"
where
  "populate e a [] h = (None, h)"
| "populate e a (c # cs) h =
     (case child_round e a c h of
        (Some p, h') \<Rightarrow> (Some p, h')
      | (None, h') \<Rightarrow> populate e a cs h')"

definition GetChildren ::
  "env \<Rightarrow> world \<Rightarrow> addr \<Rightarrow> Auth
   \<Rightarrow> (panic + (string \<times> addr) list option \<times> gerror option) \<times> world"
where
  "GetChildren e w a au =
     (case deref (items w) a of
        None \<Rightarrow> (Inl NilDereference, w)
      | Some d \<Rightarrow>
          if \<not> IsDir d \<or> children d \<noteq> None then (Inr (children d, None), w)
          else
            (case Path d of
               Inl p \<Rightarrow> (Inl p, w)
             | Inr path \<Rightarrow>
                 (let body = Get e (trace w) (ChildrenPath e path) au;
                      w1 = sent e w (GET (ChildrenPath e path) au)
                  in case body of
                       Inl err \<Rightarrow> (Inr (None, Some err), w1)
                     | Inr bytes \<Rightarrow>
                         (let (fetched, h1) = alloc_children (unmarshalChildren e bytes) (items w1)
                          in case deref h1 a of
                               None \<Rightarrow> (Inl NilDereference, w1\<lparr>items := h1\<rparr>)
                             | Some live \<Rightarrow>
                                 if \<not> mutex live then (Inl NilDereference, w1\<lparr>items := h1\<rparr>)
                                 else
                                   (let h2 = h1[a := live\<lparr>children := Some []\<rparr>];
                                        (pn, h3) = populate e a fetched h2
                                    in case pn of
                                         Some p \<Rightarrow> (Inl p, w1\<lparr>items := h3\<rparr>)
                                       | None \<Rightarrow>
                                           (Inr (children (h3 ! a), None),
                                            w1\<lparr>items := h3\<rparr>))))))"

section \<open>Flush\<close>

text \<open>
  The loop of \<open>getRoot\<close> follows the parent links for as long as the parent's own
  stored parent path is not empty. Nothing bounds the walk (the links can form a
  cycle), so it is a partial function: \<open>None\<close> when it never returns.
\<close>

partial_function (option) getRoot_loop ::
  "DriveItem list \<Rightarrow> addr option \<Rightarrow> (panic + addr) option"
where
  "getRoot_loop h parent =
     (case parent of
        None \<Rightarrow> Some (Inl NilDereference)
      | Some pa \<Rightarrow>
          (case deref h pa of
             None \<Rightarrow> Some (Inl NilDereference)
           | Some pd \<Rightarrow>
               (case Parent pd of
                  None \<Rightarrow> Some (Inl NilDereference)
                | Some pp \<Rightarrow>
                    if parent_Path pp \<noteq> '''' then getRoot_loop h (parent_item pp)
                    else Some (Inr pa))))"

declare getRoot_loop.simps [code]

definition getRoot :: "DriveItem list \<Rightarrow> DriveItem \<Rightarrow> (panic + addr) option" where
  "getRoot h d =
     (case Parent d of
        None \<Rightarrow> Some (Inl NilDereference)
      | Some p \<Rightarrow> getRoot_loop h (parent_item p))"

text \<open>\<open>go d.Upload(auth)\<close> starts the upload and does not wait for it: the call is
  recorded in \<open>uploads\<close>, after the assignment that clears the flag.
  \<open>Flush\<close> is \<open>None\<close> when \<open>getRoot\<close> never returns.\<close>

definition Flush :: "world \<Rightarrow> addr \<Rightarrow> ((panic + Status) \<times> world) option" where
  "Flush w a =
     (case deref (items w) a of
        None \<Rightarrow> Some (Inl NilDereference, w)
      | Some d \<Rightarrow>
          (case Path d of
             Inl p \<Rightarrow> Some (Inl p, w)
           | Inr path \<Rightarrow>
               if \<not> mutex d then Some (Inl NilDereference, w)
               else if hasChanges d
               then
                 (case getRoot (items w) d of
                    None \<Rightarrow> None
                  | Some (Inl p) \<Rightarrow> Some (Inl p, w)
                  | Some (Inr r) \<Rightarrow>
                      (case deref (items w) r of
                         None \<Rightarrow> Some (Inl NilDereference, w)
                       | Some rd \<Rightarrow>
                           (case auth rd of
                              None \<Rightarrow> Some (Inl NilDereference, w)
                            | Some au \<Rightarrow>
                                (let w1 = w\<lparr>items := (items w)[a := d\<lparr>hasChanges := False\<rparr>]\<rparr>
                                 in Some (Inr OK,
                                          w1\<lparr>uploads := uploads w1 @ [(a, au, items w1 ! a)]\<rparr>)))))
               else Some (Inr OK, w)))"

section \<open>The parent chain\<close>

text \<open>
  \<open>chain_to_root h a as\<close> reads the parent links of the store: the item at \<open>a\<close>
  has a parent reference; if \<open>as\<close> is empty its stored parent path is empty
  (it is a root); otherwise its stored parent path is not empty, its parent link
  is the first address of \<open>as\<close>, and the chain goes on from there. The chain ends
  at \<open>last (a # as)\<close>.
\<close>

fun chain_to_root :: "DriveItem list \<Rightarrow> addr \<Rightarrow> addr list \<Rightarrow> bool" where
  "chain_to_root h a [] =
     (case deref h a of
        None \<Rightarrow> False
      | Some pd \<Rightarrow> (case Parent pd of None \<Rightarrow> False | Some pp \<Rightarrow> parent_Path pp = ''''))"
| "chain_to_root h a (n # ns) =
     (case deref h a of
        None \<Rightarrow> False
      | Some pd \<Rightarrow>
          (case Parent pd of
             None \<Rightarrow> False
           | Some pp \<Rightarrow> parent_Path pp \<noteq> '''' \<and> parent_item pp = Some n
                        \<and> chain_to_root h n ns))"

section \<open>The path as the specification words it\<close>

text \<open>
  The specification says of \<open>Path\<close> that the stored prefix "is stripped of a known
  root marker and duplicate separators are collapsed". \<open>collapse_separators\<close>
  follows these words: a run of \<open>/\<close> becomes a single \<open>/\<close>. \<open>spec_Path\<close> is
  the path built with it, to be compared with \<open>Path\<close>.
\<close>

fun collapse_separators :: "string \<Rightarrow> string" where
  "collapse_separators (a # b # cs) =
     (if a = CHR ''/'' \<and> b = CHR ''/'' then collapse_separators (b # cs)
      else a # collapse_separators (b # cs))"
| "collapse_separators cs = cs"

definition spec_Path :: "DriveItem \<Rightarrow> panic + string" where
  "spec_Path d =
     (case Parent d of
        None \<Rightarrow> Inl NilDereference
      | Some p \<Rightarrow>
          if parent_Path p = '''' \<and> Name d = ''root'' then Inr ''/''
          else Inr (collapse_separators
                      (TrimPrefix (parent_Path p @ ''/'' @ Name d) ''/drive/root:'')))"

section \<open>Example items and transports\<close>

text \<open>A root directory holding the authentication context, a file under it, and
  two entries as a listing would decode them.\<close>

definition rootItem :: DriveItem where
  "rootItem =
     \<lparr>auth = Some \<lparr>AccessToken = ''token''\<rparr>, data = None, hasChanges = False,
      IDInternal = ''rootid'', NameInternal = ''root'', SizeInternal = 0, mode = 0,
      Parent = Some \<lparr>parent_ID = '''', parent_Path = '''', parent_item = None\<rparr>,
      children = None, subdir = 0, mutex = True, FileInternal = None\<rparr>"

definition fileItem :: DriveItem where
  "fileItem =
     \<lparr>auth = None, data = Some \<lparr>backing = [0x41, 0x42, 0x43], slen = 3\<rparr>,
      hasChanges = False, IDInternal = '''', NameInternal = ''report.txt'',
      SizeInternal = 3, mode = 0,
      Parent = Some \<lparr>parent_ID = ''rootid'', parent_Path = ''/drive/root:'',
                      parent_item = Some 0\<rparr>,
      children = None, subdir = 0, mutex = True,
      FileInternal = Some \<lparr>MimeType = ''text/plain''\<rparr>\<rparr>"

definition listedDir :: DriveItem where
  "listedDir =
     \<lparr>auth = None, data = None, hasChanges = False, IDInternal = ''d1'',
      NameInternal = ''docs'', SizeInternal = 0, mode = 0,
      Parent = Some \<lparr>parent_ID = ''rootid'', parent_Path = ''/drive/root:'',
                      parent_item = None\<rparr>,
      children = None, subdir = 0, mutex = False, FileInternal = None\<rparr>"

definition listedFile :: DriveItem where
  "listedFile =
     \<lparr>auth = None, data = None, hasChanges = False, IDInternal = ''f1'',
      NameInternal = ''a.txt'', SizeInternal = 7, mode = 0,
      Parent = Some \<lparr>parent_ID = ''rootid'', parent_Path = ''/drive/root:'',
                      parent_item = None\<rparr>,
      children = None, subdir = 0, mutex = False,
      FileInternal = Some \<lparr>MimeType = ''text/plain''\<rparr>\<rparr>"

text \<open>The file under a stored parent path that ends in two separators.\<close>

definition slashItem :: DriveItem where
  "slashItem = fileItem\<lparr>Parent := Some \<lparr>parent_ID = ''a1'', parent_Path = ''/drive/root:/a//'',
                                           parent_item = None\<rparr>\<rparr>"

definition world0 :: world where
  "world0 = \<lparr>items = [rootItem, fileItem], trace = [], uploads = []\<rparr>"

text \<open>A transport whose upload finds the name taken, whose path query finds the
  item, and whose listing holds a directory and a file; no other caller is
  active.\<close>

definition env0 :: env where
  "env0 =
     \<lparr>Put = (\<lambda>t p au b. Inl ''409 nameAlreadyExists''),
      Get = (\<lambda>t p au. Inr []),
      GetItem = (\<lambda>t p au. Inr (listedFile\<lparr>IDInternal := ''remote1''\<rparr>)),
      ChildrenPath = (\<lambda>p. if p = ''/'' then ''/me/drive/root/children''
                           else ''/me/drive/root:'' @ p @ '':/children''),
      meanwhile = (\<lambda>t h. h),
      unmarshalItem = (\<lambda>b d. Inr (d\<lparr>IDInternal := ''new1''\<rparr>)),
      unmarshalChildren = (\<lambda>b. [Some listedDir, Some listedFile]),
      ToLower = (\<lambda>s. s),
      spare = (\<lambda>b. 0)\<rparr>"

text \<open>Two drives in one store, each root with an authentication context of its
  own. Under the second root is a directory, and inside it a file with pending
  writes: the walk from the file to its root takes two steps and ends at the
  second root.\<close>

definition otherAuth :: Auth where
  "otherAuth = \<lparr>AccessToken = ''token2''\<rparr>"

definition otherRoot :: DriveItem where
  "otherRoot = rootItem\<lparr>auth := Some otherAuth, IDInternal := ''rootid2''\<rparr>"

definition docsItem :: DriveItem where
  "docsItem = listedDir\<lparr>Parent := Some \<lparr>parent_ID = ''rootid2'', parent_Path = ''/drive/root:'',
                                          parent_item = Some 1\<rparr>,
                        mutex := True\<rparr>"

definition nestedItem :: DriveItem where
  "nestedItem = fileItem\<lparr>Parent := Some \<lparr>parent_ID = ''d1'', parent_Path = ''/drive/root:/docs'',
                                            parent_item = Some 2\<rparr>,
                          hasChanges := True\<rparr>"

definition world_deep :: world where
  "world_deep = \<lparr>items = [rootItem, otherRoot, docsItem, nestedItem], trace = [], uploads = []\<rparr>"

text \<open>A store whose parent links form a cycle: a directory that is its own
  parent, and a file with pending writes inside it.\<close>

definition loopDir :: DriveItem where
  "loopDir = listedDir\<lparr>Parent := Some \<lparr>parent_ID = ''d1'', parent_Path = ''/drive/root:/docs'',
                                         parent_item = Some 0\<rparr>,
                       mutex := True\<rparr>"

definition world_cycle :: world where
  "world_cycle = \<lparr>items = [loopDir, nestedItem\<lparr>Parent := Some \<lparr>parent_ID = ''d1'',
                     parent_Path = ''/drive/root:/docs'', parent_item = Some 0\<rparr>\<rparr>],
                   trace = [], uploads = []\<rparr>"

text \<open>A file as a listing leaves it, with a declared size of seven bytes; a
  transport that serves five bytes of content for it; and the item after
  \<open>FetchContent\<close>, whose declared size is ahead of its content.\<close>

definition listedWorld :: world where
  "listedWorld =
     \<lparr>items = [rootItem,
               listedFile\<lparr>Parent := Some \<lparr>parent_ID = ''rootid'', parent_Path = ''/drive/root:'',
                                           parent_item = Some 0\<rparr>,
                          mutex := True\<rparr>],
      trace = [], uploads = []\<rparr>"

definition staleItem :: DriveItem where
  "staleItem =
     listedFile\<lparr>Parent := Some \<lparr>parent_ID = ''rootid'', parent_Path = ''/drive/root:'',
                                 parent_item = Some 0\<rparr>,
                mutex := True,
                data := Some \<lparr>backing = [0, 0, 0, 0, 0], slen = 5\<rparr>\<rparr>"

definition tokenAuth :: Auth where
  "tokenAuth = \<lparr>AccessToken = ''token''\<rparr>"

text \<open>The same transport while another caller stores an identifier on the file
  during the upload; and one whose path query fails as well.\<close>

definition env_raced :: env where
  "env_raced = env0\<lparr>meanwhile := (\<lambda>t h. h[1 := (h ! 1)\<lparr>IDInternal := ''raced1''\<rparr>])\<rparr>"

definition env_gone :: env where
  "env_gone = env0\<lparr>GetItem := (\<lambda>t p au. Inl ''404 itemNotFound'')\<rparr>"

text \<open>A transport that serves five bytes of content; and one whose listing
  request fails.\<close>

definition env_short :: env where
  "env_short = env0\<lparr>Get := (\<lambda>t p au. Inr [0, 0, 0, 0, 0])\<rparr>"


definition env_down :: env where
  "env_down = env0\<lparr>Get := (\<lambda>t p au. Inl ''timeout'')\<rparr>"

section \<open>Facts about the runtime values\<close>

lemma wrap64_id: "- (2 ^ 63) \<le> x \<Longrightarrow> x < 2 ^ 63 \<Longrightarrow> wrap64 x = x"
  by (simp add: wrap64_def)

lemma wrap64_small: "0 \<le> x \<Longrightarrow> x \<le> maxInt \<Longrightarrow> wrap64 x = x"
  by (rule wrap64_id) (simp_all add: maxInt_def)

lemma wrap64_pred: "0 \<le> x \<Longrightarrow> x \<le> maxInt \<Longrightarrow> wrap64 (x - 1) = x - 1"
  by (rule wrap64_id) (simp_all add: maxInt_def)

lemma sint64_small:
  assumes a: "uint (w :: 64 word) < 2 ^ 63"
  shows "sint w = uint w"
proof -
  have "signed_take_bit 63 (uint w) = uint w"
  proof (rule signed_take_bit_int_eq_self)
    have "- (2 ^ 63) \<le> (0::int)" by simp
    also have "0 \<le> uint w" by simp
    finally show "- (2 ^ 63) \<le> uint w" .
    show "uint w < 2 ^ 63" by (rule a)
  qed
  then show ?thesis by (simp add: sint_uint)
qed

lemma sint64_of_size:
  assumes "uint (w :: 64 word) \<le> maxInt"
  shows "sint w = uint w"
  using assms by (intro sint64_small) (simp add: maxInt_def)

lemma Path_frame:
  "Parent d' = Parent d \<Longrightarrow> NameInternal d' = NameInternal d \<Longrightarrow> Path d' = Path d"
  by (simp add: Path_def Name_def split: option.split)

lemma Mode_frame:
  "mode d' = mode d \<Longrightarrow> FileInternal d' = FileInternal d \<Longrightarrow> Mode d' = Mode d"
  by (simp add: Mode_def Mode_body_def)

lemma Mode_eq:
  "Mode d = (if mode d = 0
             then (if FileInternal d = None then S_IFDIR OR 0x1ED else S_IFREG OR 0x1A4)
             else mode d)"
  by (simp add: Mode_def Mode_body_def)

section \<open>Mode\<close>

text \<open>
  Claim C3, as amended. For an item whose mode word is zero (not supplied at
  construction), a \<open>Mode()\<close> query returns the directory mode \<open>S_IFDIR | 0755\<close>
  when the file facet is absent and the file mode \<open>S_IFREG | 0644\<close> otherwise; a
  second query returns the same value; and after \<open>Chmod(perms)\<close> the mode is the
  item's type bit together with \<open>perms\<close>.
\<close>

theorem Mode_classifies:
  assumes "deref h a = Some d" and "mode d = 0"
  shows "fst (call_Mode h a)
           = Inr (if FileInternal d = None then S_IFDIR OR 0x1ED else S_IFREG OR 0x1A4)
         \<and> fst (call_Mode (snd (call_Mode h a)) a) = fst (call_Mode h a)
         \<and> (\<forall>perms st d'. Chmod d perms = Inr (st, d')
               \<longrightarrow> Mode d' = (if IsDir d then S_IFDIR else S_IFREG) OR perms)"
proof -
  have chm: "Mode d' = (if IsDir d then S_IFDIR else S_IFREG) OR perms"
    if "Chmod d perms = Inr (st, d')" for perms st d'
  proof -
    from that have d': "d' = (if IsDir d then d\<lparr>mode := S_IFDIR OR perms\<rparr>
                              else d\<lparr>mode := S_IFREG OR perms\<rparr>)"
      by (auto simp: Chmod_def split: sum.splits if_splits)
    have "S_IFDIR OR perms \<noteq> 0" "S_IFREG OR perms \<noteq> 0"
      by (simp_all add: or_eq_0_iff S_IFDIR_def S_IFREG_def)
    then show ?thesis by (simp add: d' Mode_eq)
  qed
  show ?thesis
    using assms chm by (simp add: call_Mode_def Mode_body_def)
qed

theorem Mode_classifies_witness:
  "deref [rootItem, fileItem] 1 = Some fileItem \<and> mode fileItem = 0
   \<and> fst (call_Mode [rootItem, fileItem] 1) = Inr 0x81A4
   \<and> fst (call_Mode (snd (call_Mode [rootItem, fileItem] 1)) 1) = Inr 0x81A4
   \<and> Chmod fileItem 0x180 = Inr (OK, fileItem\<lparr>mode := 0x8180\<rparr>)
   \<and> Mode (fileItem\<lparr>mode := 0x8180\<rparr>) = 0x8180"
proof -
  have h: "deref [rootItem, fileItem] 1 = Some fileItem" "mode fileItem = 0"
    by (simp_all add: deref_def fileItem_def)
  have f: "FileInternal fileItem \<noteq> None" "\<not> IsDir fileItem"
    by (simp_all add: fileItem_def IsDir_def Mode_eq S_IFDIR_def S_IFREG_def)
  have c: "Chmod fileItem 0x180 = Inr (OK, fileItem\<lparr>mode := 0x8180\<rparr>)"
    using f by (simp add: Chmod_def Path_def Name_def TrimPrefix_def)
      (simp add: fileItem_def S_IFREG_def)
  note t = Mode_classifies [OF h]
  have t1: "fst (call_Mode [rootItem, fileItem] 1) = Inr 0x81A4"
    using t f by (simp add: S_IFREG_def)
  have t2: "fst (call_Mode (snd (call_Mode [rootItem, fileItem] 1)) 1) = Inr 0x81A4"
    using t t1 by simp
  have "Mode (fileItem\<lparr>mode := 0x8180\<rparr>) = S_IFREG OR 0x180"
    using t f c by auto
  then have t3: "Mode (fileItem\<lparr>mode := 0x8180\<rparr>) = 0x8180"
    by (simp add: S_IFREG_def)
  show ?thesis
    using h t1 t2 c t3 by (intro conjI)
qed

text \<open>
  Claim C3 as stated fails twice. The result is not stored on the item: \<open>Mode\<close> has
  a value receiver, so after the first query the root directory's mode word is
  still zero and every query classifies again. And the mode does not stay the
  same for the life of the item: \<open>Chmod\<close> replaces it.
\<close>

theorem Mode_memo_counterexample:
  "fst (call_Mode [rootItem] 0) = Inr 0x41ED
   \<and> mode (snd (call_Mode [rootItem] 0) ! 0) = 0
   \<and> Mode rootItem = 0x41ED
   \<and> Chmod rootItem 0x1C0 = Inr (OK, rootItem\<lparr>mode := 0x41C0\<rparr>)
   \<and> Mode (rootItem\<lparr>mode := 0x41C0\<rparr>) = 0x41C0"
proof -
  have m: "Mode rootItem = 0x41ED"
    by (simp add: Mode_eq rootItem_def S_IFDIR_def)
  have d: "IsDir rootItem"
    by (simp add: IsDir_def m S_IFDIR_def)
  have c: "Chmod rootItem 0x1C0 = Inr (OK, rootItem\<lparr>mode := 0x41C0\<rparr>)"
    using d by (simp add: Chmod_def Path_def Name_def) (simp add: rootItem_def S_IFDIR_def)
  have "Mode (rootItem\<lparr>mode := 0x41C0\<rparr>) = 0x41C0"
    by (simp add: Mode_eq)
  with m c show ?thesis
    by (simp add: call_Mode_def deref_def Mode_def [symmetric]) (simp add: rootItem_def)
qed

section \<open>Write, then Read\<close>

lemma append_branch:
  assumes pre: "slice_to b offset = Inr pre"
      and app: "go_append slack pre dat = Inr b'"
  shows "0 \<le> offset \<and> offset + int (length dat) = int (slen b') \<and> slen b' \<le> cap b'
         \<and> int (slen b') \<le> maxInt
         \<and> take (length dat) (drop (nat offset) (backing b')) = dat"
proof -
  from pre have off: "0 \<le> offset" "offset \<le> int (cap b)" and p: "pre = b\<lparr>slen := nat offset\<rparr>"
    by (auto simp: slice_to_def split: if_splits)
  have lt: "length (take (nat offset) (backing b)) = nat offset"
    using off by (simp add: cap_def)
  from app p have small: "\<not> maxInt < int (nat offset + length dat)"
    by (auto simp: go_append_def Let_def split: if_splits)
  show ?thesis
  proof (cases "nat offset + length dat \<le> cap b")
    case True
    with app p small have b': "b' = \<lparr>backing = take (nat offset) (backing b) @ dat
        @ drop (nat offset + length dat) (backing b), slen = nat offset + length dat\<rparr>"
      by (simp add: go_append_def Let_def cap_def)
    show ?thesis using off small True lt by (simp add: b' cap_def)
  next
    case False
    with app p small have b': "b' = \<lparr>backing = take (nat offset) (backing b) @ dat
        @ replicate (slack (cap b) (nat offset + length dat)) 0,
        slen = nat offset + length dat\<rparr>"
      by (simp add: go_append_def Let_def cap_def)
    show ?thesis using off small lt by (simp add: b' cap_def)
  qed
qed

lemma copy_branch:
  assumes dst: "slice_from b offset = Inr dst"
      and fits: "offset + int (length dat) \<le> int (slen b)"
      and v: "valid_slice b"
  shows "0 \<le> offset \<and> offset + int (length dat) \<le> int (slen (go_copy_at b (nat offset) dst dat))
         \<and> slen (go_copy_at b (nat offset) dst dat) \<le> cap (go_copy_at b (nat offset) dst dat)
         \<and> int (slen (go_copy_at b (nat offset) dst dat)) \<le> maxInt
         \<and> take (length dat) (drop (nat offset) (backing (go_copy_at b (nat offset) dst dat))) = dat"
proof -
  from dst have off: "0 \<le> offset" "offset \<le> int (slen b)"
    and d: "slen dst = slen b - nat offset"
    by (auto simp: slice_from_def split: if_splits)
  from fits off have n: "min (slen dst) (length dat) = length dat"
    by (simp add: d)
  from v have c: "slen b \<le> length (backing b)" "int (length (backing b)) \<le> maxInt"
    by (simp_all add: valid_slice_def cap_def)
  have lt: "length (take (nat offset) (backing b)) = nat offset"
    using off c by simp
  show ?thesis
    using off fits c lt by (simp add: go_copy_at_def Let_def n cap_def)
qed

text \<open>
  What holds of \<open>Write\<close> then \<open>Read\<close>. For a file item whose declared size is
  not larger than its buffer (as after any \<open>Write\<close> or \<open>Truncate\<close>, which set the
  two equal), with buffer and data together shorter than \<open>2^63\<close> bytes: after
  \<open>Write(data, offset)\<close> returns, a \<open>Read\<close> into a buffer as long as \<open>data\<close> at
  the same offset returns exactly \<open>data\<close>, whether the range lay inside the
  content or reached past it.
\<close>

lemma Write_then_Read:
  assumes w: "Write slack d dat off = Inr (r, d')"
      and b: "data d = Some b"
      and v: "valid_slice b"
      and sz: "uint (SizeInternal d) \<le> int (slen b)"
      and mem: "int (slen b) + int (length dat) \<le> maxInt"
      and len: "length buf = length dat"
  shows "Read d' buf off = Inr (dat, OK)"
proof -
  from w obtain path where path: "Path d = Inr path"
    by (auto simp: Write_def Let_def split: sum.splits)
  from w have mx: "mutex d"
    by (auto simp: Write_def Let_def split: sum.splits if_splits)
  let ?step = "(if wrap64 (sint (SizeInternal d) - 1) < wrap64 (sint off + int (length dat))
                then (case slice_to b (sint off) of Inl p \<Rightarrow> Inl p
                      | Inr pre \<Rightarrow> go_append slack pre dat)
                else (case slice_from b (sint off) of Inl p \<Rightarrow> Inl p
                      | Inr dst \<Rightarrow> Inr (go_copy_at b (nat (sint off)) dst dat)))"
  from w path mx b obtain b' where step: "?step = Inr b'"
    and d': "d' = d\<lparr>data := Some b', SizeInternal := word_of_nat (slen b'), hasChanges := True\<rparr>"
    by (auto simp: Write_def Let_def split: sum.splits)
  have key: "0 \<le> sint off \<and> sint off + int (length dat) \<le> int (slen b') \<and> slen b' \<le> cap b'
         \<and> int (slen b') \<le> maxInt
         \<and> take (length dat) (drop (nat (sint off)) (backing b')) = dat"
  proof (cases "wrap64 (sint (SizeInternal d) - 1) < wrap64 (sint off + int (length dat))")
    case True
    with step obtain pre where "slice_to b (sint off) = Inr pre" "go_append slack pre dat = Inr b'"
      by (auto split: sum.splits)
    then show ?thesis using append_branch [of b "sint off" pre slack dat b'] by simp
  next
    case False
    with step obtain dst where dst: "slice_from b (sint off) = Inr dst"
      and b': "b' = go_copy_at b (nat (sint off)) dst dat"
      by (auto split: sum.splits)
    from dst have off: "0 \<le> sint off" "sint off \<le> int (slen b)"
      by (auto simp: slice_from_def split: if_splits)
    have ul: "uint (SizeInternal d) \<le> maxInt"
      using sz mem by linarith
    have S: "sint (SizeInternal d) = uint (SizeInternal d)"
      using ul by (rule sint64_of_size)
    have "wrap64 (sint (SizeInternal d) - 1) = sint (SizeInternal d) - 1"
      unfolding S using ul by (intro wrap64_pred) simp_all
    moreover have "wrap64 (sint off + int (length dat)) = sint off + int (length dat)"
      using off mem by (intro wrap64_small) linarith+
    ultimately have "sint off + int (length dat) \<le> int (slen b)"
      using False S sz by linarith
    then show ?thesis using copy_branch [OF dst _ v, of dat] by (simp add: b')
  qed
  then have k: "0 \<le> sint off" "sint off + int (length dat) \<le> int (slen b')" "slen b' \<le> cap b'"
    "int (slen b') \<le> maxInt" "take (length dat) (drop (nat (sint off)) (backing b')) = dat"
    by simp_all
  have e: "wrap64 (sint off + int (length buf)) = sint off + int (length dat)"
    unfolding len using k by (intro wrap64_small) linarith+
  have p': "Path d' = Inr path"
    using path Path_frame [of d' d] by (simp add: d')
  have r: "slice_range b' (sint off) (sint off + int (length dat))
           = Inr \<lparr>backing = drop (nat (sint off)) (backing b'), slen = length dat\<rparr>"
    using k by (simp add: slice_range_def cap_def nat_add_distrib)
  show ?thesis
    using k mx by (simp add: Read_def e d' p' [unfolded d'] r contents_def)
qed

text \<open>Two writes to the example file (content \<open>ABC\<close>, declared size 3): one inside
  the content, one at its end, which appends.\<close>

lemma fileItem_Path: "Path fileItem = Inr ''/report.txt''"
  by (simp add: Path_def fileItem_def Name_def TrimPrefix_def)

lemma Write_inside:
  "Write (\<lambda>c n. 0) fileItem [0x44] 0
     = Inr ((1, OK), fileItem\<lparr>data := Some \<lparr>backing = [0x44, 0x42, 0x43], slen = 3\<rparr>,
                               SizeInternal := 3, hasChanges := True\<rparr>)"
  by (simp add: Write_def fileItem_Path)
     (simp add: fileItem_def wrap64_def slice_from_def go_copy_at_def)

lemma Write_append:
  "Write (\<lambda>c n. 0) fileItem [0x44, 0x45] 3
     = Inr ((2, OK), fileItem\<lparr>data := Some \<lparr>backing = [0x41, 0x42, 0x43, 0x44, 0x45], slen = 5\<rparr>,
                               SizeInternal := 5, hasChanges := True\<rparr>)"
  by (simp add: Write_def fileItem_Path)
     (simp add: fileItem_def wrap64_def slice_to_def go_append_def cap_def maxInt_def)

lemma Write_then_Read_examples:
  "Read (fileItem\<lparr>data := Some \<lparr>backing = [0x44, 0x42, 0x43], slen = 3\<rparr>,
                  SizeInternal := 3, hasChanges := True\<rparr>) [0] 0 = Inr ([0x44], OK)
   \<and> Read (fileItem\<lparr>data := Some \<lparr>backing = [0x41, 0x42, 0x43, 0x44, 0x45], slen = 5\<rparr>,
                    SizeInternal := 5, hasChanges := True\<rparr>) [0, 0] 3 = Inr ([0x44, 0x45], OK)"
proof -
  have b: "data fileItem = Some \<lparr>backing = [0x41, 0x42, 0x43], slen = 3\<rparr>"
    by (simp add: fileItem_def)
  have v: "valid_slice \<lparr>backing = [0x41, 0x42, 0x43], slen = 3\<rparr>"
    by (simp add: valid_slice_def cap_def maxInt_def)
  have sz: "uint (SizeInternal fileItem) \<le> int (slen \<lparr>backing = [0x41, 0x42, 0x43 :: byte], slen = 3\<rparr>)"
    by (simp add: fileItem_def)
  have m1: "int (slen \<lparr>backing = [0x41, 0x42, 0x43 :: byte], slen = 3\<rparr>) + int (length [0x44 :: byte]) \<le> maxInt"
    by (simp add: maxInt_def)
  have m2: "int (slen \<lparr>backing = [0x41, 0x42, 0x43 :: byte], slen = 3\<rparr>) + int (length [0x44, 0x45 :: byte]) \<le> maxInt"
    by (simp add: maxInt_def)
  have l1: "length [0 :: byte] = length [0x44 :: byte]" by simp
  have l2: "length [0, 0 :: byte] = length [0x44, 0x45 :: byte]" by simp
  show ?thesis
    using Write_then_Read [OF Write_inside b v sz m1 l1]
          Write_then_Read [OF Write_append b v sz m2 l2]
    by (intro conjI)
qed

text \<open>
  Claim C2. \<open>Write\<close> chooses between its two branches by the declared size, and
  \<open>copy\<close> is bounded by the buffer. \<open>FetchContent\<close> stores a body without
  setting the declared size to its length: here a listing declared seven bytes
  and five are served. Writing three bytes at offset 3 then takes the branch for
  a range inside the file, \<open>copy\<close> moves the two bytes that fit, the call reports
  three bytes written with status \<open>OK\<close>, and the read at the same offset into a
  buffer of three bytes returns two bytes, not the three written.
\<close>

theorem Write_reports_unstored_bytes:
  "FetchContent env_short listedWorld 1 tokenAuth
     = (Inr None, listedWorld\<lparr>trace := [GET ''/me/drive/items/f1/content'' tokenAuth],
                              items := [rootItem, staleItem]\<rparr>)
   \<and> Write (\<lambda>c n. 0) staleItem [1, 2, 3] 3
       = Inr ((3, OK), staleItem\<lparr>data := Some \<lparr>backing = [0, 0, 0, 1, 2], slen = 5\<rparr>,
                                 SizeInternal := 5, hasChanges := True\<rparr>)
   \<and> Read (staleItem\<lparr>data := Some \<lparr>backing = [0, 0, 0, 1, 2], slen = 5\<rparr>,
                    SizeInternal := 5, hasChanges := True\<rparr>) [0, 0, 0] 3 = Inr ([1, 2], OK)
   \<and> Read (staleItem\<lparr>data := Some \<lparr>backing = [0, 0, 0, 1, 2], slen = 5\<rparr>,
                    SizeInternal := 5, hasChanges := True\<rparr>) [0, 0, 0] 3 \<noteq> Inr ([1, 2, 3], OK)"
proof -
  have f: "\<not> IsDir (listedFile\<lparr>Parent := Some \<lparr>parent_ID = ''rootid'',
               parent_Path = ''/drive/root:'', parent_item = Some 0\<rparr>, mutex := True\<rparr>)"
    by (simp add: listedFile_def IsDir_def Mode_eq S_IFDIR_def S_IFREG_def)
  have i: "ID env_short listedWorld 1 tokenAuth = (Inr (''f1'', None), listedWorld)"
    using f by (simp add: ID.simps listedWorld_def deref_def) (simp add: listedFile_def)
  have g: "Get env_short t p au = Inr [0, 0, 0, 0, 0]" "spare env_short b = 0"
    "meanwhile env_short t h = h" for t p au b h
    by (simp_all add: env_short_def env0_def)
  have l: "deref (items listedWorld) 1
             = Some (listedFile\<lparr>Parent := Some \<lparr>parent_ID = ''rootid'',
                       parent_Path = ''/drive/root:'', parent_item = Some 0\<rparr>, mutex := True\<rparr>)"
    by (simp add: listedWorld_def deref_def)
  have fc: "FetchContent env_short listedWorld 1 tokenAuth
     = (Inr None, listedWorld\<lparr>trace := [GET ''/me/drive/items/f1/content'' tokenAuth],
                              items := [rootItem, staleItem]\<rparr>)"
    unfolding FetchContent_def i
    by (simp add: Let_def sent_def g l) (simp add: listedWorld_def staleItem_def deref_def g)
  have w: "Write (\<lambda>c n. 0) staleItem [1, 2, 3] 3
     = Inr ((3, OK), staleItem\<lparr>data := Some \<lparr>backing = [0, 0, 0, 1, 2], slen = 5\<rparr>,
                               SizeInternal := 5, hasChanges := True\<rparr>)"
    by (simp add: Write_def Path_def Name_def TrimPrefix_def staleItem_def listedFile_def
          wrap64_def slice_from_def go_copy_at_def)
  have r: "Read (staleItem\<lparr>data := Some \<lparr>backing = [0, 0, 0, 1, 2], slen = 5\<rparr>,
                    SizeInternal := 5, hasChanges := True\<rparr>) [0, 0, 0] 3 = Inr ([1, 2], OK)"
    by (simp add: Read_def Path_def Name_def TrimPrefix_def staleItem_def listedFile_def
          wrap64_def slice_range_def cap_def contents_def)
  show ?thesis using fc w r by simp
qed

section \<open>Truncate\<close>

text \<open>What holds of \<open>Truncate\<close>: on a file, \<open>Size\<close> then returns the requested
  size, and a \<open>Read\<close> at exactly that offset returns no bytes.\<close>

lemma Truncate_then_Size:
  assumes "Truncate d n = Inr (st, d')" and "\<not> IsDir d"
  shows "Size d' = Inr n"
proof -
  from assms(1) obtain b' where
    d': "d' = d\<lparr>data := Some b', SizeInternal := n, hasChanges := True\<rparr>" and mx: "mutex d"
    by (auto simp: Truncate_def split: sum.splits if_splits option.splits)
  have "IsDir d' = IsDir d"
    using Mode_frame [of d' d] by (simp add: d' IsDir_def)
  then show ?thesis using assms(2) mx by (simp add: Size_def) (simp add: d')
qed

lemma Truncate_then_Read_at_size:
  assumes t: "Truncate d n = Inr (st, d')"
      and room: "uint n + int (length buf) \<le> maxInt"
  shows "Read d' buf n = Inr ([], OK)"
proof -
  from t obtain path where path: "Path d = Inr path"
    by (auto simp: Truncate_def split: sum.splits)
  from t obtain b b' where b: "data d = Some b" and s: "slice_to b (uint n) = Inr b'"
    and d': "d' = d\<lparr>data := Some b', SizeInternal := n, hasChanges := True\<rparr>" and mx: "mutex d"
    by (auto simp: Truncate_def split: sum.splits if_splits option.splits)
  from s have n: "uint n \<le> int (cap b)" and b': "b' = b\<lparr>slen := unat n\<rparr>"
    by (auto simp: slice_to_def split: if_splits)
  have un: "uint n \<le> maxInt" using room by linarith
  have sn: "sint n = uint n" using un by (rule sint64_of_size)
  have e: "wrap64 (uint n + int (length buf)) = uint n + int (length buf)"
    using room by (intro wrap64_small) simp_all
  have p': "Path (d\<lparr>data := Some (b\<lparr>slen := unat n\<rparr>), SizeInternal := n,
                   hasChanges := True\<rparr>) = Inr path"
    using path Path_frame [of "d\<lparr>data := Some (b\<lparr>slen := unat n\<rparr>), SizeInternal := n,
                   hasChanges := True\<rparr>" d] by simp
  have r: "slice_range (b\<lparr>slen := unat n\<rparr>) (uint n) (uint n)
           = Inr \<lparr>backing = drop (unat n) (backing b), slen = 0\<rparr>"
    using n by (simp add: slice_range_def cap_def)
  have c: "(if uint n < uint n + int (length buf)
            then int (slen (b\<lparr>slen := unat n\<rparr>)) else uint n + int (length buf)) = uint n"
    by simp
  show ?thesis
    unfolding Read_def Let_def d' b' sn e
    using mx by (simp only: c p' r) (simp add: contents_def r)
qed

text \<open>
  Claim C4 against the code. The example file holds \<open>ABC\<close>. \<open>Truncate(1)\<close> succeeds
  and \<open>Size\<close> returns 1; a \<open>Read\<close> at offset 1 returns no bytes; a \<open>Read\<close> at
  offset 2, beyond the new size, does not return zero bytes: the end of the range
  is clamped to the length 1, the start is not, and the slice expression
  \<open>[2:1]\<close> panics.
\<close>

theorem Read_beyond_truncated_size:
  "Truncate fileItem 1
     = Inr (OK, fileItem\<lparr>data := Some \<lparr>backing = [0x41, 0x42, 0x43], slen = 1\<rparr>,
                         SizeInternal := 1, hasChanges := True\<rparr>)
   \<and> Size (fileItem\<lparr>data := Some \<lparr>backing = [0x41, 0x42, 0x43], slen = 1\<rparr>,
                    SizeInternal := 1, hasChanges := True\<rparr>) = Inr 1
   \<and> Read (fileItem\<lparr>data := Some \<lparr>backing = [0x41, 0x42, 0x43], slen = 1\<rparr>,
                    SizeInternal := 1, hasChanges := True\<rparr>) [0] 1 = Inr ([], OK)
   \<and> Read (fileItem\<lparr>data := Some \<lparr>backing = [0x41, 0x42, 0x43], slen = 1\<rparr>,
                    SizeInternal := 1, hasChanges := True\<rparr>) [0] 2 = Inl SliceBounds"
proof -
  have t: "Truncate fileItem 1
     = Inr (OK, fileItem\<lparr>data := Some \<lparr>backing = [0x41, 0x42, 0x43], slen = 1\<rparr>,
                         SizeInternal := 1, hasChanges := True\<rparr>)"
    by (simp add: Truncate_def Path_def Name_def TrimPrefix_def fileItem_def slice_to_def cap_def)
  have f: "\<not> IsDir fileItem"
    by (simp add: fileItem_def IsDir_def Mode_eq S_IFDIR_def S_IFREG_def)
  have r: "uint (1 :: 64 word) + int (length [0 :: byte]) \<le> maxInt"
    by (simp add: maxInt_def)
  have p: "Read (fileItem\<lparr>data := Some \<lparr>backing = [0x41, 0x42, 0x43], slen = 1\<rparr>,
                    SizeInternal := 1, hasChanges := True\<rparr>) [0] 2 = Inl SliceBounds"
    by (simp add: Read_def Path_def Name_def TrimPrefix_def fileItem_def wrap64_def
          slice_range_def cap_def)
  show ?thesis
    using t Truncate_then_Size [OF t f] Truncate_then_Read_at_size [OF t r] p by (intro conjI)
qed

section \<open>Path\<close>

lemma Replace_pair:
  "Replace (CHR ''/'' # CHR ''/'' # cs) ''//'' ''/'' = CHR ''/'' # Replace cs ''//'' ''/''"
  by simp

lemma Replace_single:
  "\<not> (c = CHR ''/'' \<and> (\<exists>cs'. cs = CHR ''/'' # cs'))
   \<Longrightarrow> Replace (c # cs) ''//'' ''/'' = c # Replace cs ''//'' ''/''"
  by (cases cs) auto

lemma collapse_single:
  "\<not> (c = CHR ''/'' \<and> (\<exists>cs'. cs = CHR ''/'' # cs'))
   \<Longrightarrow> collapse_separators (c # cs) = c # collapse_separators cs"
  by (cases cs) auto

lemma Contains_tail: "\<not> Contains (c # cs) sub \<Longrightarrow> \<not> Contains cs sub"
  by simp

lemma no_triple_head:
  "\<not> Contains (CHR ''/'' # CHR ''/'' # cs) ''///'' \<Longrightarrow> \<not> (\<exists>cs'. cs = CHR ''/'' # cs')"
  by auto

lemma Replace_collapses:
  "\<not> Contains s ''///'' \<Longrightarrow> Replace s ''//'' ''/'' = collapse_separators s"
proof (induction s rule: induct_list012)
  case 1
  show ?case by simp
next
  case (2 x)
  show ?case by simp
next
  case (3 x y zs)
  have tl1: "\<not> Contains (y # zs) ''///''"
    using "3.prems" by (rule Contains_tail)
  have tl2: "\<not> Contains zs ''///''"
    using tl1 by (rule Contains_tail)
  show ?case
  proof (cases "x = CHR ''/'' \<and> y = CHR ''/''")
    case True
    have nz: "\<not> (\<exists>cs'. zs = CHR ''/'' # cs')"
      using "3.prems" True no_triple_head [of zs] by simp
    have "collapse_separators (x # y # zs) = collapse_separators (CHR ''/'' # zs)"
      using True by simp
    also have "\<dots> = CHR ''/'' # collapse_separators zs"
      using nz by (intro collapse_single) simp
    finally show ?thesis
      using True "3.IH"(1) [OF tl2] by (simp only: Replace_pair)
  next
    case False
    have "Replace (x # y # zs) ''//'' ''/'' = x # Replace (y # zs) ''//'' ''/''"
      using False by (intro Replace_single) simp
    moreover have "collapse_separators (x # y # zs) = x # collapse_separators (y # zs)"
      using False by (intro collapse_single) simp
    ultimately show ?thesis using "3.IH"(2) [OF tl1] by simp
  qed
qed

text \<open>
  Claim C9, as amended. \<open>Path()\<close> is computed on each call from the parent
  reference's stored path, a \<open>/\<close> and the item's name: the root item (empty stored
  path, name \<open>root\<close>) gives \<open>/\<close>; otherwise the marker \<open>/drive/root:\<close> is
  stripped from the front and, provided what is left has no run of three or more
  \<open>/\<close>, the duplicate separators are collapsed. The result depends on the stored
  parent path and the name only, so it is the same on every call until one of
  them changes.
\<close>

theorem Path_refines_spec:
  assumes "Parent d = Some p"
      and "\<not> Contains (TrimPrefix (parent_Path p @ ''/'' @ Name d) ''/drive/root:'') ''///''"
  shows "Path d = spec_Path d
         \<and> (parent_Path p = '''' \<and> Name d = ''root'' \<longrightarrow> Path d = Inr ''/'')
         \<and> (\<forall>d'. Parent d' = Parent d \<and> NameInternal d' = NameInternal d
                \<longrightarrow> Path d' = Path d)"
proof -
  have "Path d = spec_Path d"
    using assms by (simp add: Path_def spec_Path_def Replace_collapses)
  moreover have "parent_Path p = '''' \<and> Name d = ''root'' \<longrightarrow> Path d = Inr ''/''"
    using assms(1) by (simp add: Path_def)
  moreover have "\<forall>d'. Parent d' = Parent d \<and> NameInternal d' = NameInternal d
                   \<longrightarrow> Path d' = Path d"
    using Path_frame by blast
  ultimately show ?thesis by (intro conjI)
qed

theorem Path_refines_spec_witness:
  "Path fileItem = Inr ''/report.txt'' \<and> spec_Path fileItem = Inr ''/report.txt''
   \<and> Path rootItem = Inr ''/''
   \<and> Path (fileItem\<lparr>hasChanges := True\<rparr>) = Inr ''/report.txt''"
proof -
  have p: "Parent fileItem
             = Some \<lparr>parent_ID = ''rootid'', parent_Path = ''/drive/root:'', parent_item = Some 0\<rparr>"
    by (simp add: fileItem_def)
  have c: "\<not> Contains (TrimPrefix (parent_Path \<lparr>parent_ID = ''rootid'',
               parent_Path = ''/drive/root:'', parent_item = Some 0\<rparr> @ ''/'' @ Name fileItem)
             ''/drive/root:'') ''///''"
    by (simp add: TrimPrefix_def Name_def fileItem_def)
  have pr: "Parent rootItem = Some \<lparr>parent_ID = '''', parent_Path = '''', parent_item = None\<rparr>"
    by (simp add: rootItem_def)
  have cr: "\<not> Contains (TrimPrefix (parent_Path \<lparr>parent_ID = '''',
               parent_Path = '''', parent_item = None\<rparr> @ ''/'' @ Name rootItem)
             ''/drive/root:'') ''///''"
    by (simp add: TrimPrefix_def Name_def rootItem_def)
  have r: "Name rootItem = ''root''"
    by (simp add: Name_def rootItem_def)
  note t = Path_refines_spec [OF p c]
  note tr = Path_refines_spec [OF pr cr]
  have 1: "Path fileItem = Inr ''/report.txt''" by (rule fileItem_Path)
  have 2: "spec_Path fileItem = Inr ''/report.txt''"
    using conjunct1 [OF t] 1 by simp
  have 3: "Path rootItem = Inr ''/''"
    using conjunct1 [OF conjunct2 [OF tr]] r by simp
  have 4: "Path (fileItem\<lparr>hasChanges := True\<rparr>) = Inr ''/report.txt''"
    using conjunct2 [OF conjunct2 [OF t]] 1 by simp
  show ?thesis using 1 2 3 4 by (intro conjI)
qed

text \<open>
  Claim C9 as stated fails on a run of three separators: \<open>strings.Replace\<close> makes
  one pass over non-overlapping pairs, so \<open>///\<close> becomes \<open>//\<close> and the path
  still holds a duplicate separator, where collapsing would leave one.
\<close>

theorem Path_collapse_counterexample:
  "Path slashItem = Inr ''/a//report.txt''
   \<and> spec_Path slashItem = Inr ''/a/report.txt''
   \<and> Contains ''/a//report.txt'' ''//''"
  by (simp add: Path_def spec_Path_def slashItem_def fileItem_def Name_def TrimPrefix_def)

section \<open>Identity resolution without a token\<close>

text \<open>
  Claim C10. For a file item (lock allocated, parent reference present) with no
  cached identifier, \<open>ID\<close> with an empty access token returns the empty
  identifier and a nil error, and leaves the world as it was: no request is
  added to the trace, so no placeholder upload is issued.
\<close>

theorem ID_empty_token:
  assumes "deref (items w) a = Some d" and "mutex d" and "Parent d = Some p"
      and "\<not> IsDir d" and "IDInternal d = ''''" and "AccessToken au = ''''"
  shows "ID e w a au = (Inr ('''', None), w)"
  using assms by (simp add: ID.simps)

lemma world0_file:
  "deref (items world0) 1 = Some fileItem" "mutex fileItem"
  "Parent fileItem
     = Some \<lparr>parent_ID = ''rootid'', parent_Path = ''/drive/root:'', parent_item = Some 0\<rparr>"
  "\<not> IsDir fileItem" "IDInternal fileItem = ''''"
  by (simp_all add: world0_def deref_def fileItem_def IsDir_def Mode_eq S_IFDIR_def S_IFREG_def)

theorem ID_empty_token_witness:
  "ID env0 world0 1 emptyAuth = (Inr ('''', None), world0)
   \<and> trace (snd (ID env0 world0 1 emptyAuth)) = []"
proof -
  have t: "AccessToken emptyAuth = ''''" by (simp add: emptyAuth_def)
  have "ID env0 world0 1 emptyAuth = (Inr ('''', None), world0)"
    using world0_file t by (rule ID_empty_token)
  then show ?thesis by (simp add: world0_def)
qed

section \<open>Identity resolution when the name already exists\<close>

text \<open>
  Claim C1. A file item has no cached identifier, the token is not empty, and the
  placeholder upload fails with an error that mentions \<open>nameAlreadyExists\<close>.
  \<open>w1\<close> is the world when the upload returns, \<open>live\<close> the item as it is then.
  If \<open>live\<close> has an identifier (another caller set it), \<open>ID\<close> returns it and
  makes no further request. Otherwise it queries the transport by the item's
  path: it returns the identifier of the item found, or, if the query fails too,
  the empty identifier with the error of the upload, not that of the query.
\<close>

theorem ID_name_already_exists:
  assumes d: "deref (items w) a = Some d" "mutex d" "Parent d = Some p"
             "\<not> IsDir d" "IDInternal d = ''''" "AccessToken au \<noteq> ''''"
      and up: "uploadPath = ''/me/drive/items/'' @ parent_ID p @ '':/'' @ Name d @ '':/content''"
      and put: "Put e (trace w) uploadPath au [] = Inl err"
      and ex: "Contains err ''nameAlreadyExists''"
      and w1: "w1 = sent e w (PUT uploadPath au [])"
      and live: "deref (items w1) a = Some live" "mutex live" "Path live = Inr path"
  shows "(IDInternal live \<noteq> '''' \<longrightarrow> ID e w a au = (Inr (IDInternal live, None), w1))
       \<and> (IDInternal live = '''' \<longrightarrow>
            (\<forall>l. GetItem e (trace w1) path au = Inr l
               \<longrightarrow> ID e w a au = (Inr (IDInternal l, None), sent e w1 (GETITEM path au)))
          \<and> (\<forall>err2. GetItem e (trace w1) path au = Inl err2
               \<longrightarrow> ID e w a au = (Inr ('''', Some err), sent e w1 (GETITEM path au))))"
  using d ex put live
  by (simp add: ID.simps [of e w a au] Let_def Name_def w1 up)

lemma tokenAuth_set: "AccessToken tokenAuth \<noteq> ''''"
  by (simp add: tokenAuth_def)

lemma exists_error: "Contains ''409 nameAlreadyExists'' ''nameAlreadyExists''"
  by simp

theorem ID_name_already_exists_witness:
  "fst (ID env_raced world0 1 tokenAuth) = Inr (''raced1'', None)
   \<and> trace (snd (ID env_raced world0 1 tokenAuth))
       = [PUT ''/me/drive/items/rootid:/report.txt:/content'' tokenAuth []]
   \<and> fst (ID env0 world0 1 tokenAuth) = Inr (''remote1'', None)
   \<and> fst (ID env_gone world0 1 tokenAuth) = Inr ('''', Some ''409 nameAlreadyExists'')"
proof -
  let ?up = "''/me/drive/items/rootid:/report.txt:/content''"
  let ?req = "PUT ?up tokenAuth []"
  have up: "?up = ''/me/drive/items/'' @ parent_ID \<lparr>parent_ID = ''rootid'',
              parent_Path = ''/drive/root:'', parent_item = Some 0\<rparr> @ '':/'' @ Name fileItem
              @ '':/content''"
    by (simp add: Name_def fileItem_def)
  have raced:
    "deref (items (sent env_raced world0 ?req)) 1 = Some (fileItem\<lparr>IDInternal := ''raced1''\<rparr>)"
    "mutex (fileItem\<lparr>IDInternal := ''raced1''\<rparr>)"
    "Path (fileItem\<lparr>IDInternal := ''raced1''\<rparr>) = Inr ''/report.txt''"
    using Path_frame [of "fileItem\<lparr>IDInternal := ''raced1''\<rparr>" fileItem] fileItem_Path world0_file(2)
    by (simp_all add: sent_def env_raced_def env0_def world0_def deref_def)
  have quiet0:
    "deref (items (sent env0 world0 ?req)) 1 = Some fileItem"
    "deref (items (sent env_gone world0 ?req)) 1 = Some fileItem"
    by (simp_all add: sent_def env_gone_def env0_def world0_def deref_def)
  have a: "ID env_raced world0 1 tokenAuth
             = (Inr (''raced1'', None), sent env_raced world0 ?req)"
    using ID_name_already_exists [OF world0_file tokenAuth_set up _ exists_error refl raced]
    by (simp add: env_raced_def env0_def)
  have b: "ID env0 world0 1 tokenAuth
             = (Inr (''remote1'', None),
                sent env0 (sent env0 world0 ?req) (GETITEM ''/report.txt'' tokenAuth))"
    using ID_name_already_exists [OF world0_file tokenAuth_set up _ exists_error refl
            quiet0(1) world0_file(2) fileItem_Path]
    by (simp add: env0_def world0_file)
  have c: "ID env_gone world0 1 tokenAuth
             = (Inr ('''', Some ''409 nameAlreadyExists''),
                sent env_gone (sent env_gone world0 ?req) (GETITEM ''/report.txt'' tokenAuth))"
    using ID_name_already_exists [OF world0_file tokenAuth_set up _ exists_error refl
            quiet0(2) world0_file(2) fileItem_Path]
    by (simp add: env_gone_def env0_def world0_file)
  have a1: "fst (ID env_raced world0 1 tokenAuth) = Inr (''raced1'', None)"
    by (simp only: a fst_conv)
  have a2: "trace (snd (ID env_raced world0 1 tokenAuth)) = [?req]"
    by (simp only: a snd_conv) (simp add: sent_def world0_def)
  have b1: "fst (ID env0 world0 1 tokenAuth) = Inr (''remote1'', None)"
    by (simp only: b fst_conv)
  have c1: "fst (ID env_gone world0 1 tokenAuth) = Inr ('''', Some ''409 nameAlreadyExists'')"
    by (simp only: c fst_conv)
  show ?thesis
    using a1 a2 b1 c1 by (intro conjI)
qed

section \<open>Facts about the listing loop\<close>

lemma deref_Some: "deref h a = Some d \<longleftrightarrow> a < length h \<and> h ! a = d"
  by (auto simp: deref_def)

lemma IsDir_frame:
  "mode d' = mode d \<Longrightarrow> FileInternal d' = FileInternal d \<Longrightarrow> IsDir d' = IsDir d"
  by (simp add: IsDir_def Mode_eq)

lemma alloc_children_store:
  "length h \<le> length (snd (alloc_children cs h))
   \<and> (\<forall>i < length h. snd (alloc_children cs h) ! i = h ! i)"
proof (induction cs h rule: alloc_children.induct)
  case (1 h)
  show ?case by simp
next
  case (2 cs h)
  then show ?case by (simp add: case_prod_beta)
next
  case (3 c cs h)
  then show ?case by (auto simp: case_prod_beta nth_append)
qed

lemma alloc_children_all:
  "alloc_children (map Some cs) h = (map Some [length h ..< length h + length cs], h @ cs)"
proof (induction cs arbitrary: h)
  case Nil
  show ?case by simp
next
  case (Cons c cs)
  have "[length h ..< length h + length (c # cs)]
          = length h # [Suc (length h) ..< Suc (length h) + length cs]"
    by (subst upt_rec) simp
  then show ?case by (simp add: Cons.IH)
qed

text \<open>A round keeps the length of the store and, at the directory, a child map
  that is not nil and the lock; it changes no mode word and no file facet.\<close>

lemma child_round_mode:
  "mode (snd (child_round e a c h) ! i) = mode (h ! i)"
  "FileInternal (snd (child_round e a c h) ! i) = FileInternal (h ! i)"
  by (auto simp: child_round_def deref_def Let_def nth_list_update split: option.split)

lemma child_round_IsDir: "IsDir (snd (child_round e a c h) ! i) = IsDir (h ! i)"
  by (rule IsDir_frame) (rule child_round_mode)+

lemma child_round_keeps:
  assumes "a < length h" and "children (h ! a) \<noteq> None"
  shows "length (snd (child_round e a c h)) = length h"
    and "children (snd (child_round e a c h) ! a) \<noteq> None"
    and "mutex (h ! a) \<Longrightarrow> mutex (snd (child_round e a c h) ! a)"
proof -
  show "length (snd (child_round e a c h)) = length h"
    by (simp add: child_round_def deref_def Let_def split: option.split)
  show "children (snd (child_round e a c h) ! a) \<noteq> None"
    using assms
    by (auto simp: child_round_def deref_def Let_def nth_list_update split: option.split)
  show "mutex (h ! a) \<Longrightarrow> mutex (snd (child_round e a c h) ! a)"
    using assms
    by (auto simp: child_round_def deref_def Let_def nth_list_update split: option.split)
qed

text \<open>A round for a child that is in the store, is not the directory itself and
  has a parent reference: no panic, every parent reference stays, and the
  subdirectory counter goes up by one exactly when the child is a directory.\<close>

lemma child_round_ok:
  assumes "a < length h" and "children (h ! a) \<noteq> None"
      and "ca < length h" and "ca \<noteq> a" and "Parent (h ! ca) \<noteq> None"
  shows "fst (child_round e a (Some ca) h) = None"
    and "subdir (snd (child_round e a (Some ca) h) ! a)
           = subdir (h ! a) + (if IsDir (h ! ca) then 1 else 0)"
    and "Parent (h ! i) \<noteq> None \<Longrightarrow> Parent (snd (child_round e a (Some ca) h) ! i) \<noteq> None"
proof -
  have d: "IsDir ((h ! ca)\<lparr>Parent := x, mutex := True\<rparr>) = IsDir (h ! ca)" for x
    by (rule IsDir_frame) simp_all
  show "fst (child_round e a (Some ca) h) = None"
    using assms
    by (auto simp: child_round_def deref_def Let_def nth_list_update split: option.split)
  show "subdir (snd (child_round e a (Some ca) h) ! a)
           = subdir (h ! a) + (if IsDir (h ! ca) then 1 else 0)"
    using assms
    by (auto simp: child_round_def deref_def Let_def nth_list_update d split: option.split)
  show "Parent (h ! i) \<noteq> None \<Longrightarrow> Parent (snd (child_round e a (Some ca) h) ! i) \<noteq> None"
    using assms
    by (auto simp: child_round_def deref_def Let_def nth_list_update split: option.split)
qed

text \<open>The whole loop.\<close>

lemma populate_keeps:
  assumes "a < length h" and "children (h ! a) \<noteq> None"
  shows "length (snd (populate e a ps h)) = length h
         \<and> children (snd (populate e a ps h) ! a) \<noteq> None
         \<and> (mutex (h ! a) \<longrightarrow> mutex (snd (populate e a ps h) ! a))
         \<and> IsDir (snd (populate e a ps h) ! a) = IsDir (h ! a)"
  using assms
proof (induction ps arbitrary: h)
  case Nil
  then show ?case by simp
next
  case (Cons c ps)
  obtain pn h' where r: "child_round e a c h = (pn, h')"
    by (cases "child_round e a c h")
  have k1: "length h' = length h"
    using child_round_keeps(1) [OF Cons.prems, where e = e and c = c] by (simp add: r)
  have k2: "children (h' ! a) \<noteq> None"
    using child_round_keeps(2) [OF Cons.prems, where e = e and c = c] by (simp add: r)
  have k3: "mutex (h ! a) \<longrightarrow> mutex (h' ! a)"
    using child_round_keeps(3) [OF Cons.prems, where e = e and c = c] by (simp add: r)
  have k4: "IsDir (h' ! a) = IsDir (h ! a)"
    using child_round_IsDir [of e a c h a] by (simp add: r)
  note k = k1 k2 k3 k4
  show ?case
  proof (cases pn)
    case (Some p)
    then show ?thesis using k by (simp add: r)
  next
    case None
    have "a < length h'" using k Cons.prems by simp
    from Cons.IH [OF this k(2)] show ?thesis
      using k None by (simp add: r)
  qed
qed

lemma populate_counts:
  assumes "a < length h" and "children (h ! a) \<noteq> None"
      and "\<forall>ca \<in> set cas. ca < length h \<and> ca \<noteq> a \<and> Parent (h ! ca) \<noteq> None"
  shows "fst (populate e a (map Some cas) h) = None
         \<and> subdir (snd (populate e a (map Some cas) h) ! a)
             = subdir (h ! a) + of_nat (length (filter (\<lambda>ca. IsDir (h ! ca)) cas))"
  using assms
proof (induction cas arbitrary: h)
  case Nil
  show ?case by simp
next
  case (Cons ca cas)
  have ca: "ca < length h" "ca \<noteq> a" "Parent (h ! ca) \<noteq> None"
    using Cons.prems(3) by simp_all
  obtain pn h' where r: "child_round e a (Some ca) h = (pn, h')"
    by (cases "child_round e a (Some ca) h")
  note ok = child_round_ok [OF Cons.prems(1,2) ca, where e = e]
  have pn: "pn = None" using ok(1) by (simp add: r)
  have k: "length h' = length h" "children (h' ! a) \<noteq> None"
    using child_round_keeps(1,2) [OF Cons.prems(1,2), where e = e and c = "Some ca"]
    by (simp_all add: r)
  have sd: "subdir (h' ! a) = subdir (h ! a) + (if IsDir (h ! ca) then 1 else 0)"
    using ok(2) by (simp add: r)
  have par: "Parent (h ! i) \<noteq> None \<Longrightarrow> Parent (h' ! i) \<noteq> None" for i
    using ok(3) [where i = i] by (simp add: r)
  have dir: "IsDir (h' ! i) = IsDir (h ! i)" for i
    using child_round_IsDir [of e a "Some ca" h i] by (simp add: r)
  have rest: "\<forall>c \<in> set cas. c < length h' \<and> c \<noteq> a \<and> Parent (h' ! c) \<noteq> None"
    using Cons.prems(3) par by (simp add: k)
  have a': "a < length h'" using Cons.prems(1) by (simp add: k)
  have f: "filter (\<lambda>c. IsDir (h' ! c)) cas = filter (\<lambda>c. IsDir (h ! c)) cas"
    by (simp add: dir)
  from Cons.IH [OF a' k(2) rest] show ?case
    by (simp add: r pn sd f)
qed

section \<open>Directory listing: what a call does\<close>

text \<open>A call on a directory whose child cache is nil makes exactly one request,
  whatever comes back.\<close>

lemma GetChildren_trace:
  assumes "deref (items w) a = Some d" and "IsDir d" and "children d = None"
      and "Path d = Inr path"
  shows "trace (snd (GetChildren e w a au)) = trace w @ [GET (ChildrenPath e path) au]"
  using assms
  by (simp add: GetChildren_def Let_def sent_def split: sum.split option.split prod.split)

lemma GetChildren_cached:
  assumes "deref (items w) a = Some d" and "children d = Some m"
  shows "GetChildren e w a au = (Inr (Some m, None), w)"
  using assms by (simp add: GetChildren_def)

text \<open>A call whose request succeeds, with no other caller at work: the children
  are allocated, the cache becomes the empty map, and the loop runs.\<close>

lemma GetChildren_fetch:
  assumes d: "deref (items w) a = Some d" "IsDir d" "children d = None" "mutex d"
             "Path d = Inr path"
      and get: "Get e (trace w) (ChildrenPath e path) au = Inr bytes"
      and quiet: "meanwhile e (trace w @ [GET (ChildrenPath e path) au]) (items w) = items w"
      and al: "alloc_children (unmarshalChildren e bytes) (items w) = (ps, h1)"
      and po: "populate e a ps (h1[a := d\<lparr>children := Some []\<rparr>]) = (pn, h3)"
  shows "GetChildren e w a au
           = (case pn of Some p \<Rightarrow> Inl p | None \<Rightarrow> Inr (children (h3 ! a), None),
              w\<lparr>trace := trace w @ [GET (ChildrenPath e path) au], items := h3\<rparr>)"
proof -
  have a: "a < length (items w)" "items w ! a = d"
    using d(1) by (simp_all add: deref_Some)
  have "snd (alloc_children (unmarshalChildren e bytes) (items w)) = h1"
    by (simp add: al)
  with alloc_children_store [of "items w" "unmarshalChildren e bytes"] a
  have h1: "deref h1 a = Some d"
    by (auto simp: deref_Some)
  show ?thesis
    using d get quiet h1
    by (simp add: GetChildren_def Let_def sent_def al po split: option.split)
qed

section \<open>Directory listing: a failing transport\<close>

text \<open>
  Claim C6. For a directory whose child cache is nil, with no other caller at
  work: if the listing request fails, \<open>GetChildren\<close> returns that error and a
  nil map, and the world differs from the one before in the trace only, which
  has the request added; so the child cache is still nil and the subdirectory
  counter is what it was. A further call makes the request again.
\<close>

theorem GetChildren_transport_failure:
  assumes d: "deref (items w) a = Some d" "IsDir d" "children d = None" "Path d = Inr path"
      and get: "Get e (trace w) (ChildrenPath e path) au = Inl err"
      and quiet: "meanwhile e (trace w @ [GET (ChildrenPath e path) au]) (items w) = items w"
  shows "GetChildren e w a au
           = (Inr (None, Some err), w\<lparr>trace := trace w @ [GET (ChildrenPath e path) au]\<rparr>)
         \<and> children (items (snd (GetChildren e w a au)) ! a) = None
         \<and> subdir (items (snd (GetChildren e w a au)) ! a) = subdir d
         \<and> trace (snd (GetChildren e (snd (GetChildren e w a au)) a au'))
             = trace w @ [GET (ChildrenPath e path) au, GET (ChildrenPath e path) au']"
proof -
  let ?w1 = "w\<lparr>trace := trace w @ [GET (ChildrenPath e path) au]\<rparr>"
  have a: "a < length (items w)" "items w ! a = d"
    using d(1) by (simp_all add: deref_Some)
  have r: "GetChildren e w a au = (Inr (None, Some err), ?w1)"
    using d get quiet by (simp add: GetChildren_def Let_def sent_def)
  have d1: "deref (items ?w1) a = Some d"
    using d(1) by simp
  have "trace (snd (GetChildren e ?w1 a au')) = trace ?w1 @ [GET (ChildrenPath e path) au']"
    using d1 d(2,3,4) by (rule GetChildren_trace)
  then show ?thesis
    using a d(3) by (simp add: r)
qed

lemma rootItem_dir:
  "deref (items world0) 0 = Some rootItem" "IsDir rootItem" "children rootItem = None"
  "mutex rootItem" "Path rootItem = Inr ''/''"
  by (simp_all add: world0_def deref_def rootItem_def IsDir_def Mode_eq S_IFDIR_def
        Path_def Name_def)

theorem GetChildren_transport_failure_witness:
  "GetChildren env_down world0 0 tokenAuth
     = (Inr (None, Some ''timeout''),
        world0\<lparr>trace := [GET ''/me/drive/root/children'' tokenAuth]\<rparr>)
   \<and> children (items (snd (GetChildren env_down world0 0 tokenAuth)) ! 0) = None
   \<and> subdir (items (snd (GetChildren env_down world0 0 tokenAuth)) ! 0) = 0
   \<and> trace (snd (GetChildren env_down (snd (GetChildren env_down world0 0 tokenAuth)) 0 tokenAuth))
       = [GET ''/me/drive/root/children'' tokenAuth,
          GET ''/me/drive/root/children'' tokenAuth]"
proof -
  have g: "Get env_down (trace world0) (ChildrenPath env_down ''/'') tokenAuth = Inl ''timeout''"
    by (simp add: env_down_def env0_def)
  have q: "meanwhile env_down (trace world0 @ [GET (ChildrenPath env_down ''/'') tokenAuth])
             (items world0) = items world0"
    by (simp add: env_down_def env0_def)
  have c: "ChildrenPath env_down ''/'' = ''/me/drive/root/children''"
    by (simp add: env_down_def env0_def)
  have t: "trace world0 = []" "subdir rootItem = 0"
    by (simp_all add: world0_def rootItem_def)
  show ?thesis
    by (rule GetChildren_transport_failure [OF rootItem_dir(1,2,3,5) g q, of tokenAuth,
          unfolded c t append_Nil])
qed

section \<open>Directory listing: one fetch\<close>

text \<open>
  Claim C5, as amended. For a directory (lock allocated, parent reference
  present, no other caller at work) whose listing request, if one is made,
  succeeds: the first \<open>GetChildren\<close> makes the request exactly when the child
  cache is nil; after it the cache is a map, not nil, also when the
  listing was empty; and a second call returns that map and leaves the world,
  with its trace, as it is. So the two calls make at most one request.
\<close>

theorem GetChildren_fetches_once:
  assumes d: "deref (items w) a = Some d" "IsDir d" "mutex d" "Path d = Inr path"
      and quiet: "meanwhile e (trace w @ [GET (ChildrenPath e path) au]) (items w) = items w"
      and ok: "children d = None \<longrightarrow> (\<exists>bytes. Get e (trace w) (ChildrenPath e path) au = Inr bytes)"
  shows "trace (snd (GetChildren e w a au))
           = (if children d = None then trace w @ [GET (ChildrenPath e path) au] else trace w)
         \<and> (\<exists>m. children (items (snd (GetChildren e w a au)) ! a) = Some m
                \<and> GetChildren e (snd (GetChildren e w a au)) a au'
                    = (Inr (Some m, None), snd (GetChildren e w a au)))"
proof (cases "children d")
  case (Some m)
  have r: "GetChildren e w a au = (Inr (Some m, None), w)"
    using d(1) Some by (rule GetChildren_cached)
  have "items w ! a = d" using d(1) by (simp add: deref_Some)
  then show ?thesis
    using Some GetChildren_cached [OF d(1) Some, of e au'] by (simp add: r)
next
  case None
  with ok obtain bytes where get: "Get e (trace w) (ChildrenPath e path) au = Inr bytes"
    by auto
  obtain ps h1 where al: "alloc_children (unmarshalChildren e bytes) (items w) = (ps, h1)"
    by (cases "alloc_children (unmarshalChildren e bytes) (items w)")
  obtain pn h3 where po: "populate e a ps (h1[a := d\<lparr>children := Some []\<rparr>]) = (pn, h3)"
    by (cases "populate e a ps (h1[a := d\<lparr>children := Some []\<rparr>])")
  let ?w1 = "w\<lparr>trace := trace w @ [GET (ChildrenPath e path) au], items := h3\<rparr>"
  have r: "snd (GetChildren e w a au) = ?w1"
    using GetChildren_fetch [OF d(1,2) None d(3,4) get quiet al po] by simp
  have a: "a < length (items w)"
    using d(1) by (simp add: deref_Some)
  have "length (items w) \<le> length h1"
    using alloc_children_store [of "items w" "unmarshalChildren e bytes"] by (simp add: al)
  with a have a1: "a < length (h1[a := d\<lparr>children := Some []\<rparr>])" by simp
  have c1: "children (h1[a := d\<lparr>children := Some []\<rparr>] ! a) \<noteq> None"
    using a1 by simp
  from populate_keeps [OF a1 c1, of e ps]
  have k: "length h3 = length h1" "children (h3 ! a) \<noteq> None"
    by (simp_all add: po)
  then obtain m where m: "children (h3 ! a) = Some m" by auto
  have d3: "deref (items ?w1) a = Some (h3 ! a)"
    using a1 k(1) by (simp add: deref_Some)
  have "GetChildren e ?w1 a au' = (Inr (Some m, None), ?w1)"
    using d3 m by (rule GetChildren_cached)
  then show ?thesis
    using None m by (simp add: r)
qed

text \<open>A listing that decodes to no children at all; the cache becomes the empty
  map, and the second call does not ask again.\<close>

theorem GetChildren_fetches_once_witness:
  "trace (snd (GetChildren (env0\<lparr>unmarshalChildren := (\<lambda>b. [])\<rparr>) world0 0 tokenAuth))
     = [GET ''/me/drive/root/children'' tokenAuth]
   \<and> children (items (snd (GetChildren (env0\<lparr>unmarshalChildren := (\<lambda>b. [])\<rparr>) world0 0
                              tokenAuth)) ! 0) = Some []
   \<and> GetChildren (env0\<lparr>unmarshalChildren := (\<lambda>b. [])\<rparr>)
        (snd (GetChildren (env0\<lparr>unmarshalChildren := (\<lambda>b. [])\<rparr>) world0 0 tokenAuth)) 0
        tokenAuth
       = (Inr (Some [], None),
          snd (GetChildren (env0\<lparr>unmarshalChildren := (\<lambda>b. [])\<rparr>) world0 0 tokenAuth))"
proof -
  let ?e = "env0\<lparr>unmarshalChildren := (\<lambda>b. [])\<rparr>"
  have q: "meanwhile ?e (trace world0 @ [GET (ChildrenPath ?e ''/'') tokenAuth])
             (items world0) = items world0"
    by (simp add: env0_def)
  have g: "children rootItem = None
             \<longrightarrow> (\<exists>bytes. Get ?e (trace world0) (ChildrenPath ?e ''/'') tokenAuth = Inr bytes)"
    by (simp add: env0_def)
  have c: "ChildrenPath ?e ''/'' = ''/me/drive/root/children''"
    by (simp add: env0_def)
  have t: "trace world0 = []"
    by (simp add: world0_def)
  note th = GetChildren_fetches_once [OF rootItem_dir(1,2,4,5) q g, of tokenAuth,
              unfolded c t append_Nil]
  have v: "children (items (snd (GetChildren ?e world0 0 tokenAuth)) ! 0) = Some []"
    using rootItem_dir
    by (simp add: GetChildren_def Let_def sent_def env0_def)
       (simp add: world0_def deref_def)
  show ?thesis
    using th v rootItem_dir(3) by auto
qed

text \<open>
  Claim C5 as stated fails when the first request fails: the cache stays nil
  (claim C6), so the second call makes the request again, and the two calls have
  made two requests.
\<close>

theorem GetChildren_refetch_counterexample:
  "trace (snd (GetChildren env_down (snd (GetChildren env_down world0 0 tokenAuth)) 0 tokenAuth))
     = [GET ''/me/drive/root/children'' tokenAuth,
        GET ''/me/drive/root/children'' tokenAuth]
   \<and> length (trace (snd (GetChildren env_down (snd (GetChildren env_down world0 0 tokenAuth))
                          0 tokenAuth))) = 2"
proof -
  have 1: "GetChildren env_down world0 0 tokenAuth
     = (Inr (None, Some ''timeout''),
        world0\<lparr>trace := [GET ''/me/drive/root/children'' tokenAuth]\<rparr>)"
    using rootItem_dir(2,3,4,5)
    by (simp add: GetChildren_def Let_def sent_def env_down_def env0_def world0_def deref_def)
  have 2: "GetChildren env_down (world0\<lparr>trace := [GET ''/me/drive/root/children'' tokenAuth]\<rparr>)
             0 tokenAuth
     = (Inr (None, Some ''timeout''),
        world0\<lparr>trace := [GET ''/me/drive/root/children'' tokenAuth,
                           GET ''/me/drive/root/children'' tokenAuth]\<rparr>)"
    using rootItem_dir(2,3,4,5)
    by (simp add: GetChildren_def Let_def sent_def env_down_def env0_def world0_def deref_def)
  show ?thesis by (simp add: 1 2)
qed

section \<open>Link count\<close>

lemma count_appended:
  "length (filter (\<lambda>i. P ((xs @ ys) ! i)) [length xs ..< length xs + length ys])
     = length (filter P ys)"
proof -
  have "map (\<lambda>i. (xs @ ys) ! i) [length xs ..< length xs + length ys] = ys"
    by (rule nth_equalityI) (simp_all add: nth_append)
  then have "filter P ys
               = map (\<lambda>i. (xs @ ys) ! i)
                   (filter (P \<circ> (\<lambda>i. (xs @ ys) ! i)) [length xs ..< length xs + length ys])"
    by (simp add: filter_map [symmetric])
  then have "length (filter P ys)
               = length (filter (P \<circ> (\<lambda>i. (xs @ ys) ! i)) [length xs ..< length xs + length ys])"
    by (metis length_map)
  then show ?thesis by (simp add: comp_def)
qed

text \<open>
  Claim C8. \<open>NLink\<close> returns 2 plus the subdirectory counter for a directory and
  1 for a file. When \<open>GetChildren\<close> populates a directory from a listing (every
  entry an item with a parent reference, no other caller at work), it returns
  the map, and the counter has gone up by the number of directories among the
  listed children: \<open>NLink\<close> is then 2 plus the old counter plus that number, in
  32-bit arithmetic.
\<close>

theorem NLink_counts_subdirectories:
  assumes d: "deref (items w) a = Some d" "IsDir d" "children d = None" "mutex d"
             "Path d = Inr path"
      and get: "Get e (trace w) (ChildrenPath e path) au = Inr bytes"
      and quiet: "meanwhile e (trace w @ [GET (ChildrenPath e path) au]) (items w) = items w"
      and dec: "unmarshalChildren e bytes = map Some cs"
      and par: "\<forall>c \<in> set cs. Parent c \<noteq> None"
  shows "NLink d = Inr (2 + subdir d)
         \<and> (\<exists>m. fst (GetChildren e w a au) = Inr (Some m, None))
         \<and> NLink (items (snd (GetChildren e w a au)) ! a)
             = Inr (2 + subdir d + of_nat (length (filter IsDir cs)))
         \<and> (\<forall>f. \<not> IsDir f \<longrightarrow> NLink f = Inr 1)"
proof -
  let ?n = "length (items w)"
  let ?cas = "[?n ..< ?n + length cs]"
  let ?h2 = "(items w @ cs)[a := d\<lparr>children := Some []\<rparr>]"
  have a: "a < ?n" "items w ! a = d"
    using d(1) by (simp_all add: deref_Some)
  have al: "alloc_children (unmarshalChildren e bytes) (items w) = (map Some ?cas, items w @ cs)"
    by (simp add: dec alloc_children_all)
  obtain pn h3 where po: "populate e a (map Some ?cas) ?h2 = (pn, h3)"
    by (cases "populate e a (map Some ?cas) ?h2")
  have r: "GetChildren e w a au
             = (case pn of Some p \<Rightarrow> Inl p | None \<Rightarrow> Inr (children (h3 ! a), None),
                w\<lparr>trace := trace w @ [GET (ChildrenPath e path) au], items := h3\<rparr>)"
    using d get quiet al po by (rule GetChildren_fetch)
  have a2: "a < length ?h2" using a by simp
  have c2: "children (?h2 ! a) \<noteq> None" using a by simp
  have nth: "?h2 ! ca = (items w @ cs) ! ca" if "ca \<in> set ?cas" for ca
    using that a by simp
  have each: "\<forall>ca \<in> set ?cas. ca < length ?h2 \<and> ca \<noteq> a \<and> Parent (?h2 ! ca) \<noteq> None"
  proof
    fix ca assume m: "ca \<in> set ?cas"
    then have "(items w @ cs) ! ca = cs ! (ca - ?n)" "ca - ?n < length cs"
      by (auto simp: nth_append)
    then have "Parent ((items w @ cs) ! ca) \<noteq> None"
      using par by (metis nth_mem)
    then show "ca < length ?h2 \<and> ca \<noteq> a \<and> Parent (?h2 ! ca) \<noteq> None"
      using m a nth [OF m] by auto
  qed
  from populate_counts [OF a2 c2 each, of e]
  have pn: "pn = None"
    and sd: "subdir (h3 ! a)
               = subdir (?h2 ! a) + of_nat (length (filter (\<lambda>ca. IsDir (?h2 ! ca)) ?cas))"
    by (simp_all add: po)
  have "filter (\<lambda>ca. IsDir (?h2 ! ca)) ?cas = filter (\<lambda>ca. IsDir ((items w @ cs) ! ca)) ?cas"
    by (rule filter_cong) (simp_all add: nth)
  then have cnt: "length (filter (\<lambda>ca. IsDir (?h2 ! ca)) ?cas) = length (filter IsDir cs)"
    by (simp add: count_appended)
  have sd': "subdir (h3 ! a) = subdir d + of_nat (length (filter IsDir cs))"
    using a by (simp add: sd cnt)
  from populate_keeps [OF a2 c2, of e "map Some ?cas"]
  have k: "children (h3 ! a) \<noteq> None" "mutex (h3 ! a)" "IsDir (h3 ! a) = IsDir (?h2 ! a)"
    using a d(4) by (simp_all add: po)
  have "IsDir (?h2 ! a) = IsDir d"
    using a by (simp add: IsDir_def Mode_eq)
  then have dir3: "IsDir (h3 ! a)" using k(3) d(2) by simp
  from k(1) obtain m where m: "children (h3 ! a) = Some m" by auto
  have 1: "NLink d = Inr (2 + subdir d)"
    using d(2,4) by (simp add: NLink_def)
  have 2: "\<exists>m. fst (GetChildren e w a au) = Inr (Some m, None)"
    by (simp add: r pn m)
  have 3: "NLink (items (snd (GetChildren e w a au)) ! a)
             = Inr (2 + subdir d + of_nat (length (filter IsDir cs)))"
    using dir3 k(2) by (simp add: r NLink_def sd')
  have 4: "\<forall>f. \<not> IsDir f \<longrightarrow> NLink f = Inr 1"
    by (simp add: NLink_def)
  show ?thesis using 1 2 3 4 by (intro conjI)
qed

theorem NLink_counts_subdirectories_witness:
  "NLink rootItem = Inr 2
   \<and> fst (GetChildren env0 world0 0 tokenAuth) = Inr (Some [(''docs'', 2), (''a.txt'', 3)], None)
   \<and> NLink (items (snd (GetChildren env0 world0 0 tokenAuth)) ! 0) = Inr 3
   \<and> NLink fileItem = Inr 1"
proof -
  have g: "Get env0 (trace world0) (ChildrenPath env0 ''/'') tokenAuth = Inr []"
    by (simp add: env0_def)
  have q: "meanwhile env0 (trace world0 @ [GET (ChildrenPath env0 ''/'') tokenAuth])
             (items world0) = items world0"
    by (simp add: env0_def)
  have dec: "unmarshalChildren env0 [] = map Some [listedDir, listedFile]"
    by (simp add: env0_def)
  have par: "\<forall>c \<in> set [listedDir, listedFile]. Parent c \<noteq> None"
    by (simp add: listedDir_def listedFile_def)
  have dirs: "IsDir listedDir" "\<not> IsDir listedFile"
    by (simp_all add: listedDir_def listedFile_def IsDir_def Mode_eq S_IFDIR_def S_IFREG_def)
  have s: "subdir rootItem = 0" by (simp add: rootItem_def)
  note th = NLink_counts_subdirectories [OF rootItem_dir g q dec par]
  have 1: "NLink rootItem = Inr 2" using th s by simp
  have 3: "NLink (items (snd (GetChildren env0 world0 0 tokenAuth)) ! 0) = Inr 3"
    using th s dirs by simp
  have 4: "NLink fileItem = Inr 1" using th world0_file(4) by blast
  have 2: "fst (GetChildren env0 world0 0 tokenAuth)
             = Inr (Some [(''docs'', 2), (''a.txt'', 3)], None)"
    using rootItem_dir(2,3,4,5) dirs
    by (simp add: GetChildren_def Let_def sent_def env0_def world0_def deref_def child_round_def
          listedDir_def listedFile_def Name_def)
  show ?thesis using 1 2 3 4 by (intro conjI)
qed

section \<open>Flush: when an upload is started\<close>

text \<open>Along a parent chain the walk of \<open>getRoot\<close> returns, and what it returns
  is the end of the chain.\<close>

lemma getRoot_loop_chain:
  "chain_to_root h a as \<Longrightarrow> getRoot_loop h (Some a) = Some (Inr (last (a # as)))"
proof (induction as arbitrary: a)
  case Nil
  then obtain pd pp where
    pd: "deref h a = Some pd" "Parent pd = Some pp" "parent_Path pp = ''''"
    by (auto split: option.splits)
  show ?case
    by (subst getRoot_loop.simps) (simp add: pd)
next
  case (Cons n ns)
  from Cons.prems obtain pd pp where
    pd: "deref h a = Some pd" "Parent pd = Some pp" "parent_Path pp \<noteq> ''''"
        "parent_item pp = Some n" "chain_to_root h n ns"
    by (auto split: option.splits)
  have "getRoot_loop h (Some a) = getRoot_loop h (Some n)"
    by (subst getRoot_loop.simps) (simp add: pd)
  also have "\<dots> = Some (Inr (last (n # ns)))"
    using pd(5) by (rule Cons.IH)
  finally show ?case by simp
qed

text \<open>Whenever the walk returns an item, it has followed a parent chain to its
  end.\<close>

lemma getRoot_loop_sound:
  assumes "getRoot_loop h parent = Some y"
  shows "\<forall>r. y = Inr r
           \<longrightarrow> (\<exists>a as. parent = Some a \<and> chain_to_root h a as \<and> r = last (a # as))"
  using assms
proof (induction rule: getRoot_loop.raw_induct [rotated 1, consumes 1, case_names step])
  case (step walk h parent y)
  note 1 = step
  show ?case
  proof (intro allI impI)
    fix r
    assume y: "y = Inr r"
    with 1(2) obtain pa pd pp where
      pd: "parent = Some pa" "deref h pa = Some pd" "Parent pd = Some pp"
      by (auto split: option.splits)
    show "\<exists>a as. parent = Some a \<and> chain_to_root h a as \<and> r = last (a # as)"
    proof (cases "parent_Path pp = []")
      case True
      with 1(2) pd y have "r = pa" by auto
      moreover have "chain_to_root h pa []" using pd True by simp
      ultimately show ?thesis using pd(1) by (intro exI [of _ pa] exI [of _ "[]"]) simp
    next
      case False
      with 1(2) pd have w: "walk h (parent_item pp) = Some y" by simp
      from w have "\<forall>r. y = Inr r
           \<longrightarrow> (\<exists>a as. parent_item pp = Some a \<and> chain_to_root h a as \<and> r = last (a # as))"
        by (rule 1(1))
      with y obtain n ns where n: "parent_item pp = Some n" "chain_to_root h n ns"
        "r = last (n # ns)" by auto
      have "chain_to_root h pa (n # ns)" using pd False n by simp
      then show ?thesis using pd(1) n(3) by (intro exI [of _ pa] exI [of _ "n # ns"]) simp
    qed
  qed
qed

text \<open>A walk that enters a cycle of parent links never returns.\<close>

lemma getRoot_loop_cycle: "getRoot_loop (items world_cycle) (Some 0) = None"
proof -
  have "\<forall>h p. h = items world_cycle \<and> p = Some 0 \<longrightarrow> getRoot_loop h p = None"
  proof (induction rule: getRoot_loop.fixp_induct)
    case 1
    show ?case by (rule ccpo.admissibleI) (auto simp: fun_lub_def flat_lub_def) 
  next
    case 2
    show ?case by simp
  next
    case (3 walk)
    then show ?case
      by (simp add: world_cycle_def loopDir_def listedDir_def deref_def)
  qed
  then show ?thesis by simp
qed

lemma getRoot_chain:
  "Parent d = Some p \<Longrightarrow> parent_item p = Some a1 \<Longrightarrow> chain_to_root h a1 as
   \<Longrightarrow> getRoot h d = Some (Inr (last (a1 # as)))"
  using getRoot_loop_chain [of h a1 as] by (simp add: getRoot_def)

lemma getRoot_sound:
  "Parent d = Some p \<Longrightarrow> getRoot h d = Some (Inr r)
   \<Longrightarrow> \<exists>a1 as. parent_item p = Some a1 \<and> chain_to_root h a1 as \<and> r = last (a1 # as)"
  using getRoot_loop_sound [of h "parent_item p" "Inr r"] by (simp add: getRoot_def)

lemma Path_total: "Parent d = Some p \<Longrightarrow> \<exists>path. Path d = Inr path"
  by (simp add: Path_def Let_def)

lemma Flush_cycle_never_returns: "Flush world_cycle 1 = None"
proof -
  have "getRoot (items world_cycle) (items world_cycle ! 1) = None"
    using getRoot_loop_cycle by (simp add: getRoot_def world_cycle_def)
  then show ?thesis
    by (simp add: Flush_def deref_def Path_def Let_def world_cycle_def nestedItem_def fileItem_def)
qed

text \<open>
  Claim C7. For an item with its lock and parent reference: when the dirty flag
  is clear, \<open>Flush\<close> returns \<open>OK\<close> and the world is unchanged, so no upload is
  started. When the flag is set and the parent links of the store lead from the
  item's parent over a chain of items to a root (an item whose stored parent
  path is empty) that holds an authentication context, then \<open>getRoot\<close> returns
  that root, \<open>Flush\<close> returns \<open>OK\<close>, the flag is clear in the store, and one
  upload of the item has been started with the context of that root, the flag
  being clear already when it starts. Whenever \<open>Flush\<close> returns, an upload has
  been started exactly if the flag was set and the status is \<open>OK\<close>. Whenever
  \<open>getRoot\<close> returns an item, it is the end of the parent chain of this item.
\<close>

theorem Flush_dispatches_iff_dirty:
  assumes d: "deref (items w) a = Some d" "mutex d" "Parent d = Some p"
  shows "(\<not> hasChanges d \<longrightarrow> Flush w a = Some (Inr OK, w))
         \<and> (hasChanges d \<longrightarrow>
              (\<forall>a1 as rd au. parent_item p = Some a1 \<and> chain_to_root (items w) a1 as
                          \<and> deref (items w) (last (a1 # as)) = Some rd \<and> auth rd = Some au
                 \<longrightarrow> getRoot (items w) d = Some (Inr (last (a1 # as)))
                     \<and> Flush w a
                       = Some (Inr OK, w\<lparr>items := (items w)[a := d\<lparr>hasChanges := False\<rparr>],
                                         uploads := uploads w
                                           @ [(a, au, d\<lparr>hasChanges := False\<rparr>)]\<rparr>)))
         \<and> (\<forall>res w'. Flush w a = Some (res, w')
                \<longrightarrow> (uploads w' \<noteq> uploads w \<longleftrightarrow> hasChanges d \<and> res = Inr OK))
         \<and> (\<forall>r. getRoot (items w) d = Some (Inr r)
                \<longrightarrow> (\<exists>a1 as. parent_item p = Some a1 \<and> chain_to_root (items w) a1 as
                              \<and> r = last (a1 # as)))"
proof -
  have al: "a < length (items w)"
    using d(1) by (simp add: deref_Some)
  obtain path where path: "Path d = Inr path"
    using Path_total [OF d(3)] by blast
  have clean: "\<not> hasChanges d \<longrightarrow> Flush w a = Some (Inr OK, w)"
    using d path by (simp add: Flush_def)
  have dirty: "getRoot (items w) d = Some (Inr (last (a1 # as)))
               \<and> Flush w a
                 = Some (Inr OK, w\<lparr>items := (items w)[a := d\<lparr>hasChanges := False\<rparr>],
                                   uploads := uploads w @ [(a, au, d\<lparr>hasChanges := False\<rparr>)]\<rparr>)"
    if "hasChanges d" "parent_item p = Some a1" "chain_to_root (items w) a1 as"
       "deref (items w) (last (a1 # as)) = Some rd" "auth rd = Some au" for a1 as rd au
  proof -
    have g: "getRoot (items w) d = Some (Inr (last (a1 # as)))"
      using d(3) that(2,3) by (rule getRoot_chain)
    have "Flush w a
            = Some (Inr OK, w\<lparr>items := (items w)[a := d\<lparr>hasChanges := False\<rparr>],
                              uploads := uploads w @ [(a, au, d\<lparr>hasChanges := False\<rparr>)]\<rparr>)"
      using d(1,2) path that(1,4,5) al by (simp add: Flush_def g Let_def)
    with g show ?thesis by simp
  qed
  have iff: "uploads w' \<noteq> uploads w \<longleftrightarrow> hasChanges d \<and> res = Inr OK"
    if "Flush w a = Some (res, w')" for res w'
    using d path that
    by (auto simp: Flush_def Let_def split: if_splits option.splits sum.splits)
  have sound: "\<exists>a1 as. parent_item p = Some a1 \<and> chain_to_root (items w) a1 as
                 \<and> r = last (a1 # as)"
    if "getRoot (items w) d = Some (Inr r)" for r
    using d(3) that by (rule getRoot_sound)
  show ?thesis
    using clean dirty iff sound by blast
qed

theorem Flush_dispatches_iff_dirty_witness:
  "Flush world0 1 = Some (Inr OK, world0)
   \<and> getRoot (items world_deep) nestedItem = Some (Inr 1)
   \<and> Flush world_deep 3
       = Some (Inr OK, world_deep\<lparr>items := [rootItem, otherRoot, docsItem,
                                            nestedItem\<lparr>hasChanges := False\<rparr>],
                                  uploads := [(3, otherAuth, nestedItem\<lparr>hasChanges := False\<rparr>)]\<rparr>)"
proof -
  have c: "\<not> hasChanges fileItem" by (simp add: fileItem_def)
  have 1: "Flush world0 1 = Some (Inr OK, world0)"
    using Flush_dispatches_iff_dirty [OF world0_file(1,2,3)] c by blast
  have n: "deref (items world_deep) 3 = Some nestedItem" "mutex nestedItem"
    "Parent nestedItem = Some \<lparr>parent_ID = ''d1'', parent_Path = ''/drive/root:/docs'',
                                parent_item = Some 2\<rparr>"
    by (simp_all add: world_deep_def deref_def nestedItem_def fileItem_def)
  have h: "hasChanges nestedItem"
    by (simp add: nestedItem_def)
  have ch: "parent_item \<lparr>parent_ID = ''d1'', parent_Path = ''/drive/root:/docs'',
                          parent_item = Some 2\<rparr> = Some 2"
    "chain_to_root (items world_deep) 2 [1]"
    by (simp_all add: world_deep_def deref_def docsItem_def listedDir_def otherRoot_def
          rootItem_def)
  have r: "deref (items world_deep) (last [2, 1]) = Some otherRoot"
    "auth otherRoot = Some otherAuth"
    by (simp_all add: world_deep_def deref_def otherRoot_def)
  have "getRoot (items world_deep) nestedItem = Some (Inr (last [2, 1]))
        \<and> Flush world_deep 3
          = Some (Inr OK, world_deep\<lparr>items := (items world_deep)
                                        [3 := nestedItem\<lparr>hasChanges := False\<rparr>],
                                     uploads := uploads world_deep
                                       @ [(3, otherAuth, nestedItem\<lparr>hasChanges := False\<rparr>)]\<rparr>)"
    using Flush_dispatches_iff_dirty [OF n] h ch r by blast
  then have 2: "getRoot (items world_deep) nestedItem = Some (Inr 1)"
    and 3: "Flush world_deep 3
       = Some (Inr OK, world_deep\<lparr>items := [rootItem, otherRoot, docsItem,
                                            nestedItem\<lparr>hasChanges := False\<rparr>],
                                  uploads := [(3, otherAuth, nestedItem\<lparr>hasChanges := False\<rparr>)]\<rparr>)"
    by (simp_all add: world_deep_def)
  show ?thesis using 1 2 3 by (intro conjI)
qed

end
